theory Spec2Isabelle
  imports Complex_Main "HOL-Library.Multiset"
begin

section \<open>Session memory (src/lib/memory.js)\<close>

text \<open>
  The module keeps a private \<open>Map\<close> from session identifiers to arrays of turns.
  The map is modelled as a partial function, a turn as a record, and each exported
  function takes the map and returns the new one. \<open>history.push\<close> appends at the end,
  \<open>history.shift()\<close> removes the first element.
\<close>

record turn =
  role :: string
  content :: string

type_synonym sessions = "string \<rightharpoonup> turn list"

definition MAX_MESSAGES_PER_SESSION :: nat where
  "MAX_MESSAGES_PER_SESSION = 20"

definition getSessionHistory :: "sessions \<Rightarrow> string \<Rightarrow> turn list \<times> sessions" where
  "getSessionHistory sessions sessionId =
     (case sessions sessionId of
        None \<Rightarrow> ([], sessions(sessionId \<mapsto> []))
      | Some history \<Rightarrow> (history, sessions))"

definition addMessage :: "sessions \<Rightarrow> string \<Rightarrow> string \<Rightarrow> string \<Rightarrow> sessions" where
  "addMessage sessions sessionId r c =
     (let (history, sessions1) = getSessionHistory sessions sessionId;
          pushed = history @ [\<lparr>role = r, content = c\<rparr>];
          shifted = (if length pushed > MAX_MESSAGES_PER_SESSION then tl pushed else pushed)
      in sessions1(sessionId \<mapsto> shifted))"

definition clearSession :: "sessions \<Rightarrow> string \<Rightarrow> sessions" where
  "clearSession sessions sessionId = sessions(sessionId := None)"

text \<open>
  A call of \<open>addMessage\<close> is recorded as the triple of its arguments; \<open>run_adds\<close>
  performs a sequence of calls, on any mix of sessions, from the empty map the module
  starts with.
\<close>

type_synonym add_call = "string \<times> string \<times> string"

definition do_add :: "sessions \<Rightarrow> add_call \<Rightarrow> sessions" where
  "do_add sessions call = (case call of (sid, r, c) \<Rightarrow> addMessage sessions sid r c)"

definition run_adds :: "add_call list \<Rightarrow> sessions" where
  "run_adds calls = foldl do_add Map.empty calls"

definition turn_of :: "add_call \<Rightarrow> turn" where
  "turn_of call = (case call of (sid, r, c) \<Rightarrow> \<lparr>role = r, content = c\<rparr>)"

definition appended :: "add_call list \<Rightarrow> string \<Rightarrow> turn list" where
  "appended calls sid = map turn_of (filter (\<lambda>call. fst call = sid) calls)"

definition most_recent :: "nat \<Rightarrow> 'a list \<Rightarrow> 'a list" where
  "most_recent n xs = drop (length xs - n) xs"


section \<open>Rate limiter (\<open>isRateLimited\<close> in src/lib/openai.js, required as lib/rateLimit)\<close>

text \<open>
  The private map \<open>requestCounts\<close> sends a client key to the array of its request
  timestamps, in milliseconds as \<open>Date.now()\<close> gives them. The clock reading is an
  argument of the model; nothing is assumed about successive readings.
\<close>

type_synonym requestCounts = "string \<rightharpoonup> int list"

definition RATE_LIMIT_WINDOW :: int where
  "RATE_LIMIT_WINDOW = 60 * 1000"

definition MAX_REQUESTS_PER_WINDOW :: nat where
  "MAX_REQUESTS_PER_WINDOW = 60"

definition in_window :: "int \<Rightarrow> int \<Rightarrow> bool" where
  "in_window now timestamp = (now - timestamp < RATE_LIMIT_WINDOW)"

definition isRateLimited :: "requestCounts \<Rightarrow> string \<Rightarrow> int \<Rightarrow> bool \<times> requestCounts" where
  "isRateLimited rc ip now =
     (let rc1 = (case rc ip of None \<Rightarrow> rc(ip \<mapsto> []) | Some _ \<Rightarrow> rc);
          requests = (case rc1 ip of None \<Rightarrow> [] | Some ts \<Rightarrow> ts);
          validRequests = filter (in_window now) requests
      in if length validRequests \<ge> MAX_REQUESTS_PER_WINDOW then (True, rc1)
         else (False, rc1(ip \<mapsto> validRequests @ [now])))"

definition cleanupRateLimitData :: "requestCounts \<Rightarrow> int \<Rightarrow> requestCounts" where
  "cleanupRateLimitData rc now =
     (\<lambda>ip. case rc ip of
             None \<Rightarrow> None
           | Some requests \<Rightarrow>
               (let validRequests = filter (in_window now) requests
                in if validRequests = [] then None else Some validRequests))"

text \<open>
  The stored list of a key (empty when the key is absent), and the states the module
  can be in: those reached from the empty map by calls of \<open>isRateLimited\<close> and runs of
  the periodic sweep, at arbitrary clock readings.
\<close>

definition stored :: "requestCounts \<Rightarrow> string \<Rightarrow> int list" where
  "stored rc ip = (case rc ip of None \<Rightarrow> [] | Some ts \<Rightarrow> ts)"

datatype rl_event = Check string int | Sweep int

fun rl_step :: "requestCounts \<Rightarrow> rl_event \<Rightarrow> requestCounts" where
  "rl_step rc (Check ip now) = snd (isRateLimited rc ip now)"
| "rl_step rc (Sweep now) = cleanupRateLimitData rc now"

definition rl_run :: "rl_event list \<Rightarrow> requestCounts" where
  "rl_run evs = foldl rl_step Map.empty evs"


section \<open>Chunker (\<open>chunkText\<close> in src/unnamed/part_001, required as lib/embeddings)\<close>

text \<open>
  A JavaScript string is a sequence of code units; the chunker never looks at them, so
  the text is a list over any type. \<open>slice(start, stop)\<close> of strings and arrays clamps
  its arguments to the length and counts a negative argument from the end.
\<close>

definition js_slice :: "'a list \<Rightarrow> int \<Rightarrow> int \<Rightarrow> 'a list" where
  "js_slice xs start stop =
     (let len = int (length xs);
          lo = (if start < 0 then max (len + start) 0 else min start len);
          hi = (if stop < 0 then max (len + stop) 0 else min stop len)
      in take (nat (hi - lo)) (drop (nat lo) xs))"

text \<open>
  The \<open>while\<close> loop of \<open>chunkText\<close>, with its variables \<open>start\<close> and \<open>chunks\<close> as
  arguments. It does not end when \<open>chunkSize - overlap\<close> is not positive and the text
  is not empty; the value \<open>None\<close> stands for that.
\<close>

partial_function (option) chunk_loop ::
    "'a list \<Rightarrow> int \<Rightarrow> int \<Rightarrow> int \<Rightarrow> 'a list list \<Rightarrow> 'a list list option" where
  "chunk_loop text chunkSize overlap start chunks =
     (if start < int (length text)
      then (let stop = min (start + chunkSize) (int (length text))
            in chunk_loop text chunkSize overlap (start + (chunkSize - overlap))
                 (chunks @ [js_slice text start stop]))
      else Some chunks)"

declare chunk_loop.simps [code]

definition chunkText :: "'a list \<Rightarrow> int \<Rightarrow> int \<Rightarrow> 'a list list option" where
  "chunkText text chunkSize overlap = chunk_loop text chunkSize overlap 0 []"

text \<open>
  The windows as the specification describes them: window \<open>k\<close> is
  \<open>text[k * step : k * step + size]\<close>, and there is one for every \<open>k\<close> with
  \<open>k * step < length text\<close>.
\<close>

definition window_at :: "'a list \<Rightarrow> nat \<Rightarrow> nat \<Rightarrow> nat \<Rightarrow> 'a list" where
  "window_at text sz step k = take sz (drop (k * step) text)"

definition window_count :: "nat \<Rightarrow> nat \<Rightarrow> nat" where
  "window_count len step = (len + step - 1) div step"

text \<open>
  Chunk \<open>k\<close> starts \<open>chunkSize - overlap\<close> characters before chunk \<open>k + 1\<close>, so the
  characters the two share are those of chunk \<open>k\<close> from that offset to its end.
  \<open>exact_overlap_except_last\<close> says that every pair of consecutive chunks shares exactly
  \<open>overlap\<close> characters, the last pair excepted.
\<close>

definition shared_with_next :: "int \<Rightarrow> int \<Rightarrow> 'a list list \<Rightarrow> nat \<Rightarrow> int" where
  "shared_with_next chunkSize overlap chunks k =
     int (length (chunks ! k)) - (chunkSize - overlap)"

definition exact_overlap_except_last :: "int \<Rightarrow> int \<Rightarrow> 'a list list \<Rightarrow> bool" where
  "exact_overlap_except_last chunkSize overlap chunks =
     list_all (\<lambda>k. shared_with_next chunkSize overlap chunks k = overlap)
       [0..<length chunks - 2]"


section \<open>Embedding store (src/unnamed/part_001 and \<open>getOpenAIClient\<close> in src/lib/openai.js)\<close>

text \<open>
  An embedding vector is an array of finite numbers, as JSON carries them, modelled as
  a list of reals. Reading an array past its end gives \<open>undefined\<close> in JavaScript,
  modelled as \<open>None\<close>. A thrown exception is the left summand of a result.
\<close>

type_synonym vec = "real list"

datatype error = MissingApiKey | ApiError nat | TypeError

definition js_index :: "'a list \<Rightarrow> nat \<Rightarrow> 'a option" where
  "js_index xs i = (if i < length xs then Some (xs ! i) else None)"

record data_file =
  filename :: string
  file_content :: string

record chunk =
  chunk_text :: string
  chunk_source :: string

record embedded_chunk =
  item_text :: string
  item_embedding :: "vec option"
  item_source :: string

text \<open>
  What the module reads from outside: whether \<open>OPENAI_API_KEY\<close> is set, the files
  \<open>loadDataFiles\<close> finds, and the embeddings endpoint. The endpoint's answer to a
  request may depend on the texts sent and on how many requests were made before; it is
  either an error or the list of vectors \<open>response.data.map(item => item.embedding)\<close>.
\<close>

record env =
  api_key_set :: bool
  data_files :: "data_file list"
  embeddings_create :: "nat \<Rightarrow> string list \<Rightarrow> error + vec list"

text \<open>
  The module variables \<open>openaiClient\<close> (set or \<open>null\<close>) and \<open>embeddingsCache\<close> (an
  array or \<open>null\<close>), and a counter of the requests sent to the embeddings endpoint.
\<close>

record state =
  openaiClient :: bool
  embeddingsCache :: "embedded_chunk list option"
  api_calls :: nat

definition getOpenAIClient :: "env \<Rightarrow> state \<Rightarrow> (error + unit) \<times> state" where
  "getOpenAIClient env st =
     (if \<not> openaiClient st
      then (if \<not> api_key_set env then (Inl MissingApiKey, st)
            else (Inr (), st\<lparr>openaiClient := True\<rparr>))
      else (Inr (), st))"

definition loadDataFiles :: "env \<Rightarrow> data_file list" where
  "loadDataFiles env = data_files env"

definition generateEmbeddings ::
    "env \<Rightarrow> state \<Rightarrow> string list \<Rightarrow> (error + vec list) \<times> state" where
  "generateEmbeddings env st texts =
     (case getOpenAIClient env st of
        (Inl e, st1) \<Rightarrow> (Inl e, st1)
      | (Inr openai, st1) \<Rightarrow>
          (embeddings_create env (api_calls st1) texts, st1\<lparr>api_calls := Suc (api_calls st1)\<rparr>))"

text \<open>The first loop of \<open>initializeEmbeddings\<close>: every file is chunked with the default
  arguments of \<open>chunkText\<close>, and each chunk is pushed with the name of its file.\<close>

fun chunk_files :: "data_file list \<Rightarrow> chunk list \<Rightarrow> chunk list option" where
  "chunk_files [] allChunks = Some allChunks"
| "chunk_files (file # files) allChunks =
     (case chunkText (file_content file) 800 200 of
        None \<Rightarrow> None
      | Some chunks \<Rightarrow>
          chunk_files files
            (allChunks @ map (\<lambda>c. \<lparr>chunk_text = c, chunk_source = filename file\<rparr>) chunks))"

text \<open>The batch loop, with its variables \<open>i\<close> and \<open>embeddings\<close> and the module state as
  arguments. A failed request leaves the loop with the error.\<close>

partial_function (option) embed_batches ::
    "env \<Rightarrow> nat \<Rightarrow> chunk list \<Rightarrow> state \<Rightarrow> nat \<Rightarrow> vec list
       \<Rightarrow> ((error + vec list) \<times> state) option" where
  "embed_batches env batchSize allChunks st i embeddings =
     (if i < length allChunks
      then (let batch = js_slice allChunks (int i) (int i + int batchSize);
                batchTexts = map chunk_text batch
            in case generateEmbeddings env st batchTexts of
                 (Inl e, st1) \<Rightarrow> Some (Inl e, st1)
               | (Inr batchEmbeddings, st1) \<Rightarrow>
                   embed_batches env batchSize allChunks st1 (i + batchSize)
                     (embeddings @ batchEmbeddings))
      else Some (Inr embeddings, st))"

declare embed_batches.simps [code]

definition combine :: "chunk list \<Rightarrow> vec list \<Rightarrow> embedded_chunk list" where
  "combine allChunks embeddings =
     map (\<lambda>(chunk, index).
            \<lparr>item_text = chunk_text chunk,
             item_embedding = js_index embeddings index,
             item_source = chunk_source chunk\<rparr>)
         (zip allChunks [0..<length allChunks])"

text \<open>\<open>initializeEmbeddings\<close> with the batch size as an argument; the source fixes it
  to 100. An array, even an empty one, is truthy, so the first test succeeds exactly
  when the cache is not \<open>null\<close>.\<close>

definition initializeEmbeddings_batched ::
    "nat \<Rightarrow> env \<Rightarrow> state \<Rightarrow> ((error + embedded_chunk list) \<times> state) option" where
  "initializeEmbeddings_batched batchSize env st =
     (case embeddingsCache st of
        Some cache \<Rightarrow> Some (Inr cache, st)
      | None \<Rightarrow>
          (case chunk_files (loadDataFiles env) [] of
             None \<Rightarrow> None
           | Some allChunks \<Rightarrow>
               (case embed_batches env batchSize allChunks st 0 [] of
                  None \<Rightarrow> None
                | Some (Inl e, st1) \<Rightarrow> Some (Inl e, st1)
                | Some (Inr embeddings, st1) \<Rightarrow>
                    (let cache = combine allChunks embeddings
                     in Some (Inr cache, st1\<lparr>embeddingsCache := Some cache\<rparr>)))))"

definition batchSize :: nat where
  "batchSize = 100"

definition initializeEmbeddings ::
    "env \<Rightarrow> state \<Rightarrow> ((error + embedded_chunk list) \<times> state) option" where
  "initializeEmbeddings env st = initializeEmbeddings_batched batchSize env st"

definition getEmbeddings ::
    "env \<Rightarrow> state \<Rightarrow> ((error + embedded_chunk list option) \<times> state) option" where
  "getEmbeddings env st =
     (case embeddingsCache st of
        None \<Rightarrow>
          (case initializeEmbeddings env st of
             None \<Rightarrow> None
           | Some (Inl e, st1) \<Rightarrow> Some (Inl e, st1)
           | Some (Inr _, st1) \<Rightarrow> Some (Inr (embeddingsCache st1), st1))
      | Some cache \<Rightarrow> Some (Inr (Some cache), st))"

text \<open>The texts of batch \<open>j\<close>, and the number of batches.\<close>

definition batch_texts :: "nat \<Rightarrow> chunk list \<Rightarrow> nat \<Rightarrow> string list" where
  "batch_texts bs allChunks j = map chunk_text (take bs (drop (j * bs) allChunks))"

definition batch_count :: "nat \<Rightarrow> chunk list \<Rightarrow> nat" where
  "batch_count bs allChunks = window_count (length allChunks) bs"


section \<open>Retriever (src/lib/retriever.js)\<close>

text \<open>
  The source computes in the numbers of the JavaScript engine, IEEE 754 doubles, whose
  operations round. The engine is not part of the repository, so its numbers are a
  type \<open>'d\<close> and its operations \<open>+\<close>, \<open>-\<close>, \<open>*\<close>, \<open>/\<close> and \<open>Math.sqrt\<close> are arguments of the
  model, together with \<open>fp_num\<close>, the engine's number for a number of the data or a
  literal of the source, \<open>fp_nan\<close>, what \<open>undefined\<close> becomes in arithmetic, and
  \<open>fp_val\<close>, the value of an engine number: a real, an infinity or \<open>NaN\<close> (the two zeros
  have the same value). A theorem names the properties of the engine it relies on and
  holds for every engine that has them.
\<close>

datatype jsnum = Num real | PosInf | NegInf | NaN

record 'd arith =
  fp_add :: "'d \<Rightarrow> 'd \<Rightarrow> 'd"
  fp_sub :: "'d \<Rightarrow> 'd \<Rightarrow> 'd"
  fp_mul :: "'d \<Rightarrow> 'd \<Rightarrow> 'd"
  fp_div :: "'d \<Rightarrow> 'd \<Rightarrow> 'd"
  fp_sqrt :: "'d \<Rightarrow> 'd"
  fp_num :: "real \<Rightarrow> 'd"
  fp_nan :: "'d"
  fp_val :: "'d \<Rightarrow> jsnum"

text \<open>\<open>b[i]\<close> used as a number: a component, or \<open>undefined\<close>, which arithmetic turns
  into \<open>NaN\<close>.\<close>

definition component :: "'d arith \<Rightarrow> vec \<Rightarrow> nat \<Rightarrow> 'd" where
  "component fp v i = (case js_index v i of None \<Rightarrow> fp_nan fp | Some x \<Rightarrow> fp_num fp x)"

text \<open>The loop of \<open>cosineSimilarity\<close> over the indices of \<open>a\<close>, on the components of
  \<open>a\<close> still to visit. Reading \<open>b[i]\<close> throws when \<open>b\<close> is \<open>undefined\<close>.\<close>

fun cos_loop :: "'d arith \<Rightarrow> real list \<Rightarrow> nat \<Rightarrow> vec option \<Rightarrow> 'd \<times> 'd \<times> 'd
                   \<Rightarrow> error + 'd \<times> 'd \<times> 'd" where
  "cos_loop fp [] i b acc = Inr acc"
| "cos_loop fp (ai # rest) i b (dotProduct, normA, normB) =
     (case b of
        None \<Rightarrow> Inl TypeError
      | Some bv \<Rightarrow>
          cos_loop fp rest (Suc i) b
            (fp_add fp dotProduct (fp_mul fp (fp_num fp ai) (component fp bv i)),
             fp_add fp normA (fp_mul fp (fp_num fp ai) (fp_num fp ai)),
             fp_add fp normB (fp_mul fp (component fp bv i) (component fp bv i))))"

definition cosineSimilarity :: "'d arith \<Rightarrow> vec option \<Rightarrow> vec option \<Rightarrow> error + 'd" where
  "cosineSimilarity fp a b =
     (case a of
        None \<Rightarrow> Inl TypeError
      | Some av \<Rightarrow>
          (case cos_loop fp av 0 b (fp_num fp 0, fp_num fp 0, fp_num fp 0) of
             Inl e \<Rightarrow> Inl e
           | Inr (dotProduct, normA, normB) \<Rightarrow>
               Inr (fp_div fp dotProduct (fp_mul fp (fp_sqrt fp normA) (fp_sqrt fp normB)))))"

record 'd scored =
  index :: nat
  similarity :: 'd
  scored_text :: string
  scored_source :: string

text \<open>\<open>embeddings.map((item, index) => ...)\<close>; an exception in the callback ends it.\<close>

fun similarities ::
    "'d arith \<Rightarrow> vec option \<Rightarrow> embedded_chunk list \<Rightarrow> nat \<Rightarrow> error + 'd scored list" where
  "similarities fp queryEmbedding [] i = Inr []"
| "similarities fp queryEmbedding (item # items) i =
     (case cosineSimilarity fp queryEmbedding (item_embedding item) of
        Inl e \<Rightarrow> Inl e
      | Inr s \<Rightarrow>
          (case similarities fp queryEmbedding items (Suc i) of
             Inl e \<Rightarrow> Inl e
           | Inr rest \<Rightarrow>
               Inr (\<lparr>index = i, similarity = s, scored_text = item_text item,
                     scored_source = item_source item\<rparr> # rest)))"

text \<open>
  The comparator \<open>(a, b) => b.similarity - a.similarity\<close>, and what
  \<open>Array.prototype.sort\<close> makes of its value: the sort looks at the sign only, and reads
  \<open>NaN\<close> as 0 (\<open>sort_compare\<close> gives that sign).
\<close>

definition compare_similarity :: "'d arith \<Rightarrow> 'd scored \<Rightarrow> 'd scored \<Rightarrow> 'd" where
  "compare_similarity fp a b = fp_sub fp (similarity b) (similarity a)"

fun is_positive :: "jsnum \<Rightarrow> bool" where
  "is_positive (Num x) = (0 < x)"
| "is_positive PosInf = True"
| "is_positive NegInf = False"
| "is_positive NaN = False"

fun is_negative :: "jsnum \<Rightarrow> bool" where
  "is_negative (Num x) = (x < 0)"
| "is_negative PosInf = False"
| "is_negative NegInf = True"
| "is_negative NaN = False"

definition sort_compare :: "'d arith \<Rightarrow> 'd scored \<Rightarrow> 'd scored \<Rightarrow> int" where
  "sort_compare fp a b =
     (let v = fp_val fp (compare_similarity fp a b)
      in if is_positive v then 1 else if is_negative v then - 1 else 0)"

text \<open>
  The sort is stable. When the signs it reads are those of a consistent comparison of
  the elements (each element equal to itself, equality symmetric and transitive, less
  and greater transitive), there is one stable sorted order, which every sorting
  algorithm returns; it is computed here by stable insertion, an element being put in
  front of the first one it does not come after. When they are not, as with a \<open>NaN\<close>
  similarity between two different numbers, the order depends on the engine's
  algorithm, and the model gives no result (\<open>None\<close>).
\<close>

definition comes_after :: "'d arith \<Rightarrow> 'd scored \<Rightarrow> 'd scored \<Rightarrow> bool" where
  "comes_after fp a b = (0 < sort_compare fp a b)"

fun js_insert :: "'d arith \<Rightarrow> 'd scored \<Rightarrow> 'd scored list \<Rightarrow> 'd scored list" where
  "js_insert fp x [] = [x]"
| "js_insert fp x (y # ys) =
     (if comes_after fp x y then y # js_insert fp x ys else x # y # ys)"

definition insertion_sort :: "'d arith \<Rightarrow> 'd scored list \<Rightarrow> 'd scored list" where
  "insertion_sort fp xs = foldr (js_insert fp) xs []"

definition consistent3 :: "'d arith \<Rightarrow> 'd scored \<Rightarrow> 'd scored \<Rightarrow> 'd scored \<Rightarrow> bool" where
  "consistent3 fp a b c =
     (sort_compare fp a a = 0
      \<and> (if sort_compare fp a b = 0 then sort_compare fp b a = 0 else True)
      \<and> (if sort_compare fp a b = 0 \<and> sort_compare fp b c = 0
          then sort_compare fp a c = 0 else True)
      \<and> (if sort_compare fp a b < 0 \<and> sort_compare fp b c < 0
          then sort_compare fp a c < 0 else True)
      \<and> (if 0 < sort_compare fp a b \<and> 0 < sort_compare fp b c
          then 0 < sort_compare fp a c else True))"

definition consistent_on :: "'d arith \<Rightarrow> 'd scored list \<Rightarrow> bool" where
  "consistent_on fp xs =
     list_all (\<lambda>a. list_all (\<lambda>b. list_all (\<lambda>c. consistent3 fp a b c) xs) xs) xs"

definition js_sort :: "'d arith \<Rightarrow> 'd scored list \<Rightarrow> 'd scored list option" where
  "js_sort fp xs = (if consistent_on fp xs then Some (insertion_sort fp xs) else None)"

fun js_join :: "string \<Rightarrow> string list \<Rightarrow> string" where
  "js_join sep [] = []"
| "js_join sep [x] = x"
| "js_join sep (x # y # zs) = x @ sep @ js_join sep (y # zs)"

definition newline :: char where
  "newline = CHR 0x0A"

definition format_result :: "'d scored \<Rightarrow> string" where
  "format_result result =
     ''[Source: '' @ scored_source result @ '']'' @ [newline] @ scored_text result"

definition separator :: string where
  "separator = [newline, newline] @ ''---'' @ [newline, newline]"

definition topResults :: "'d arith \<Rightarrow> 'd scored list \<Rightarrow> int \<Rightarrow> 'd scored list option" where
  "topResults fp sims topK =
     (case js_sort fp sims of
        None \<Rightarrow> None
      | Some sorted_sims \<Rightarrow> Some (js_slice sorted_sims 0 topK))"

text \<open>\<open>retrieveContext\<close>: every exception inside the \<open>try\<close> block gives the empty
  string. Calling \<open>map\<close> on a \<open>null\<close> cache would throw as well. The result is \<open>None\<close>
  where the model gives none: the sort order is left to the engine, or initialization
  does not return.\<close>

definition retrieveContext ::
    "'d arith \<Rightarrow> env \<Rightarrow> state \<Rightarrow> string \<Rightarrow> int \<Rightarrow> (string \<times> state) option" where
  "retrieveContext fp env st query topK =
     (case generateEmbeddings env st [query] of
        (Inl e, st1) \<Rightarrow> Some ('''', st1)
      | (Inr queryEmbeddings, st1) \<Rightarrow>
          (let queryEmbedding = js_index queryEmbeddings 0
           in case getEmbeddings env st1 of
                None \<Rightarrow> None
              | Some (Inl e, st2) \<Rightarrow> Some ('''', st2)
              | Some (Inr None, st2) \<Rightarrow> Some ('''', st2)
              | Some (Inr (Some embeddings), st2) \<Rightarrow>
                  (case similarities fp queryEmbedding embeddings 0 of
                     Inl e \<Rightarrow> Some ('''', st2)
                   | Inr sims \<Rightarrow>
                       (case topResults fp sims topK of
                          None \<Rightarrow> None
                        | Some chosen \<Rightarrow>
                            Some (js_join separator (map format_result chosen), st2)))))"

text \<open>
  Two properties of IEEE 754 arithmetic, stated for every engine number. The
  difference of two finite numbers has the sign of the exact difference of their
  values: it is rounded to a number of that sign, to the infinity of that sign when it
  overflows, and to zero only when the two are equal. And: the literal 0 has the value
  0 and \<open>undefined\<close> becomes \<open>NaN\<close>; \<open>NaN\<close> propagates through \<open>+\<close>, \<open>*\<close>, \<open>/\<close> and
  \<open>Math.sqrt\<close>; zero times anything is zero or \<open>NaN\<close>, and zero times zero is zero;
  \<open>0 + 0\<close> and \<open>Math.sqrt(0)\<close> are zero; \<open>0 / 0\<close> is \<open>NaN\<close>.
\<close>

definition sign_faithful :: "'d arith \<Rightarrow> bool" where
  "sign_faithful fp =
     (\<forall>u v x y. fp_val fp u = Num x \<and> fp_val fp v = Num y \<longrightarrow>
        is_positive (fp_val fp (fp_sub fp v u)) = (x < y)
        \<and> is_negative (fp_val fp (fp_sub fp v u)) = (y < x))"

definition is_zero :: "'d arith \<Rightarrow> 'd \<Rightarrow> bool" where
  "is_zero fp u = (fp_val fp u = Num 0)"

definition is_nan :: "'d arith \<Rightarrow> 'd \<Rightarrow> bool" where
  "is_nan fp u = (fp_val fp u = NaN)"

definition nan_zero_laws :: "'d arith \<Rightarrow> bool" where
  "nan_zero_laws fp =
     (is_zero fp (fp_num fp 0) \<and> is_nan fp (fp_nan fp)
      \<and> (\<forall>u v. (is_nan fp u \<or> is_nan fp v \<longrightarrow>
                  is_nan fp (fp_add fp u v) \<and> is_nan fp (fp_mul fp u v)
                  \<and> is_nan fp (fp_div fp u v))
               \<and> (is_zero fp u \<or> is_zero fp v \<longrightarrow>
                  is_zero fp (fp_mul fp u v) \<or> is_nan fp (fp_mul fp u v))
               \<and> (is_zero fp u \<and> is_zero fp v \<longrightarrow>
                  is_zero fp (fp_mul fp u v) \<and> is_zero fp (fp_add fp u v)
                  \<and> is_nan fp (fp_div fp u v)))
      \<and> (\<forall>u. (is_nan fp u \<longrightarrow> is_nan fp (fp_sqrt fp u))
             \<and> (is_zero fp u \<longrightarrow> is_zero fp (fp_sqrt fp u))))"

text \<open>
  An engine that does not round: its numbers are the values themselves, each operation
  gives the exact result, \<open>0 / 0\<close> is \<open>NaN\<close> and \<open>x / 0\<close> an infinity for \<open>x \<noteq> 0\<close>. It
  has the two properties, and it computes what the doubles compute wherever their
  operations are exact, as on the small integers of the instances below. \<open>Math.sqrt\<close>
  is the real square root, which the simplifier evaluates at perfect squares.
\<close>

fun inf_of_sign :: "real \<Rightarrow> jsnum" where
  "inf_of_sign s = (if 0 < s then PosInf else if s < 0 then NegInf else NaN)"

fun jneg :: "jsnum \<Rightarrow> jsnum" where
  "jneg (Num x) = Num (- x)"
| "jneg PosInf = NegInf"
| "jneg NegInf = PosInf"
| "jneg NaN = NaN"

fun jadd :: "jsnum \<Rightarrow> jsnum \<Rightarrow> jsnum" where
  "jadd NaN b = NaN"
| "jadd a NaN = NaN"
| "jadd (Num x) (Num y) = Num (x + y)"
| "jadd PosInf NegInf = NaN"
| "jadd NegInf PosInf = NaN"
| "jadd PosInf b = PosInf"
| "jadd NegInf b = NegInf"
| "jadd (Num x) b = b"

definition jsub :: "jsnum \<Rightarrow> jsnum \<Rightarrow> jsnum" where
  "jsub a b = jadd a (jneg b)"

fun jmul :: "jsnum \<Rightarrow> jsnum \<Rightarrow> jsnum" where
  "jmul NaN b = NaN"
| "jmul a NaN = NaN"
| "jmul (Num x) (Num y) = Num (x * y)"
| "jmul (Num x) PosInf = inf_of_sign x"
| "jmul (Num x) NegInf = inf_of_sign (- x)"
| "jmul PosInf (Num y) = inf_of_sign y"
| "jmul NegInf (Num y) = inf_of_sign (- y)"
| "jmul PosInf PosInf = PosInf"
| "jmul NegInf NegInf = PosInf"
| "jmul PosInf NegInf = NegInf"
| "jmul NegInf PosInf = NegInf"

fun jdiv :: "jsnum \<Rightarrow> jsnum \<Rightarrow> jsnum" where
  "jdiv NaN b = NaN"
| "jdiv a NaN = NaN"
| "jdiv (Num x) (Num y) = (if y = 0 then inf_of_sign x else Num (x / y))"
| "jdiv (Num x) b = Num 0"
| "jdiv PosInf (Num y) = (if y < 0 then NegInf else PosInf)"
| "jdiv NegInf (Num y) = (if y < 0 then PosInf else NegInf)"
| "jdiv a b = NaN"

fun jsqrt :: "jsnum \<Rightarrow> jsnum" where
  "jsqrt (Num x) = (if x < 0 then NaN else Num (sqrt x))"
| "jsqrt PosInf = PosInf"
| "jsqrt NegInf = NaN"
| "jsqrt NaN = NaN"

definition exact_arith :: "jsnum arith" where
  "exact_arith = \<lparr>fp_add = jadd, fp_sub = jsub, fp_mul = jmul, fp_div = jdiv,
                  fp_sqrt = jsqrt, fp_num = Num, fp_nan = NaN, fp_val = (\<lambda>v. v)\<rparr>"

text \<open>A list of similarities is in descending order when each one is greater than or
  equal to the next, by the comparison of numbers, which is false on \<open>NaN\<close>.\<close>

fun jge :: "jsnum \<Rightarrow> jsnum \<Rightarrow> bool" where
  "jge NaN b = False"
| "jge a NaN = False"
| "jge (Num x) (Num y) = (y \<le> x)"
| "jge PosInf b = True"
| "jge a NegInf = True"
| "jge a b = False"

definition descending :: "jsnum list \<Rightarrow> bool" where
  "descending xs = sorted_wrt jge xs"

definition magnitude :: "vec \<Rightarrow> real" where
  "magnitude v = sqrt (\<Sum>x\<leftarrow>v. x * x)"


text \<open>
  The corpus in document order: the chunks of each file, file after file; and the
  vectors the endpoint returned for the batches of one run of the batch loop, whose
  first request is request number \<open>first\<close>, one batch after the other.
\<close>

definition file_chunks :: "data_file \<Rightarrow> chunk list" where
  "file_chunks file =
     map (\<lambda>c. \<lparr>chunk_text = c, chunk_source = filename file\<rparr>)
       (map (window_at (file_content file) 800 600)
          [0..<window_count (length (file_content file)) 600])"

definition all_chunks :: "data_file list \<Rightarrow> chunk list" where
  "all_chunks files = concat (map file_chunks files)"

definition response :: "env \<Rightarrow> nat \<Rightarrow> nat \<Rightarrow> chunk list \<Rightarrow> nat \<Rightarrow> vec list" where
  "response env first bs allChunks j =
     (case embeddings_create env (first + j) (batch_texts bs allChunks j) of
        Inl e \<Rightarrow> []
      | Inr vs \<Rightarrow> vs)"

definition vectors_returned :: "env \<Rightarrow> nat \<Rightarrow> nat \<Rightarrow> chunk list \<Rightarrow> vec list" where
  "vectors_returned env first bs allChunks =
     concat (map (response env first bs allChunks) [0..<batch_count bs allChunks])"


text \<open>
  The dot product of two vectors, and the order the ranking is claimed to follow:
  \<open>ranks_before x y\<close> holds when both similarities are finite numbers and \<open>x\<close> has the
  greater one, or they are equal and \<open>x\<close> comes first in the store.
\<close>

definition dot :: "vec \<Rightarrow> vec \<Rightarrow> real" where
  "dot a b = (\<Sum>(x, y)\<leftarrow>zip a b. x * y)"

definition ranks_before :: "'d arith \<Rightarrow> 'd scored \<Rightarrow> 'd scored \<Rightarrow> bool" where
  "ranks_before fp x y =
     (case fp_val fp (similarity x) of
        Num a \<Rightarrow>
          (case fp_val fp (similarity y) of
             Num b \<Rightarrow> b < a \<or> (a = b \<and> index x < index y)
           | _ \<Rightarrow> False)
      | _ \<Rightarrow> False)"


section \<open>Sample corpus and endpoints\<close>

text \<open>
  Three short files, the initial module state, an endpoint that answers every request
  (the vector of a text holds its length and the number of the request), and one whose
  first request fails.
\<close>

definition files3 :: "data_file list" where
  "files3 = [\<lparr>filename = ''a.txt'', file_content = ''alpha''\<rparr>,
             \<lparr>filename = ''b.txt'', file_content = ''beta''\<rparr>,
             \<lparr>filename = ''c.txt'', file_content = ''gamma''\<rparr>]"

definition env3 :: env where
  "env3 = \<lparr>api_key_set = True, data_files = files3,
           embeddings_create = (\<lambda>n texts. Inr (map (\<lambda>t. [real (length t), real n]) texts))\<rparr>"

definition st0 :: state where
  "st0 = \<lparr>openaiClient = False, embeddingsCache = None, api_calls = 0\<rparr>"

definition cache3 :: "embedded_chunk list" where
  "cache3 = [\<lparr>item_text = ''alpha'', item_embedding = Some [5, 0], item_source = ''a.txt''\<rparr>,
             \<lparr>item_text = ''beta'', item_embedding = Some [4, 0], item_source = ''b.txt''\<rparr>,
             \<lparr>item_text = ''gamma'', item_embedding = Some [5, 1], item_source = ''c.txt''\<rparr>]"

definition cache1 :: "embedded_chunk list" where
  "cache1 = [\<lparr>item_text = ''alpha'', item_embedding = Some [5, 0], item_source = ''a.txt''\<rparr>,
             \<lparr>item_text = ''beta'', item_embedding = Some [4, 0], item_source = ''b.txt''\<rparr>,
             \<lparr>item_text = ''gamma'', item_embedding = Some [5, 0], item_source = ''c.txt''\<rparr>]"

definition flaky_env :: env where
  "flaky_env = \<lparr>api_key_set = True, data_files = files3,
                embeddings_create =
                  (\<lambda>n texts. if n = 0 then Inl (ApiError 429)
                              else Inr (map (\<lambda>t. [real (length t), 0]) texts))\<rparr>"


text \<open>
  An endpoint that embeds every query as \<open>[1, 0]\<close>, a store whose first vector has
  zero magnitude, and a store of four vectors.
\<close>

definition query_env :: env where
  "query_env = \<lparr>api_key_set = True, data_files = [],
                embeddings_create = (\<lambda>n texts. Inr [[1, 0]])\<rparr>"

definition store_nan :: "embedded_chunk list" where
  "store_nan = [\<lparr>item_text = ''first'', item_embedding = Some [0, 0], item_source = ''a.txt''\<rparr>,
                \<lparr>item_text = ''second'', item_embedding = Some [1, 0], item_source = ''b.txt''\<rparr>]"

definition store4 :: "embedded_chunk list" where
  "store4 = [\<lparr>item_text = ''north'', item_embedding = Some [0, 1], item_source = ''a.txt''\<rparr>,
             \<lparr>item_text = ''east'', item_embedding = Some [1, 0], item_source = ''b.txt''\<rparr>,
             \<lparr>item_text = ''far east'', item_embedding = Some [2, 0], item_source = ''c.txt''\<rparr>,
             \<lparr>item_text = ''west'', item_embedding = Some [- 1, 0], item_source = ''d.txt''\<rparr>]"


section \<open>Session memory: the eviction invariant\<close>

lemma most_recent_snoc:
  "most_recent 20 (xs @ [x]) =
     (if length (most_recent 20 xs) < 20 then most_recent 20 xs @ [x]
      else tl (most_recent 20 xs) @ [x])"
proof (cases "length xs < 20")
  case True
  then show ?thesis by (simp add: most_recent_def)
next
  case False
  then have len: "20 \<le> length xs" by simp
  then have "length xs - 20 < length xs" by simp
  then have ne: "drop (length xs - 20) xs \<noteq> []" by simp
  have "Suc (length xs) - 20 = Suc (length xs - 20)" using len by simp
  then have "most_recent 20 (xs @ [x]) = drop (Suc (length xs - 20)) xs @ [x]"
    by (simp add: most_recent_def)
  also have "drop (Suc (length xs - 20)) xs = tl (drop (length xs - 20) xs)"
    by (simp add: drop_Suc drop_tl)
  finally show ?thesis using len by (simp add: most_recent_def)
qed

lemma tl_snoc_full: "length xs = 20 \<Longrightarrow> tl (xs @ [x]) = tl xs @ [x]"
  by (cases xs) auto

lemma history_addMessage:
  "fst (getSessionHistory (addMessage s sid r c) sid') =
     (if sid' = sid
      then (let pushed = fst (getSessionHistory s sid) @ [\<lparr>role = r, content = c\<rparr>]
            in if length pushed > 20 then tl pushed else pushed)
      else fst (getSessionHistory s sid'))"
  by (simp add: getSessionHistory_def addMessage_def MAX_MESSAGES_PER_SESSION_def Let_def
      split: option.splits)

lemma history_run_adds:
  "fst (getSessionHistory (run_adds calls) sid) = most_recent 20 (appended calls sid)"
proof (induction calls rule: rev_induct)
  case Nil
  show ?case
    by (simp add: run_adds_def appended_def most_recent_def getSessionHistory_def)
next
  case (snoc call calls)
  obtain s r c where call: "call = (s, r, c)" by (cases call)
  have run: "run_adds (calls @ [(s, r, c)]) = addMessage (run_adds calls) s r c"
    by (simp add: run_adds_def do_add_def)
  show ?case
    unfolding call
  proof (cases "s = sid")
    case False
    then have "appended (calls @ [(s, r, c)]) sid = appended calls sid"
      by (simp add: appended_def)
    then show "fst (getSessionHistory (run_adds (calls @ [(s, r, c)])) sid) =
               most_recent 20 (appended (calls @ [(s, r, c)]) sid)"
      using False snoc.IH by (simp add: run history_addMessage)
  next
    case True
    have app: "appended (calls @ [(s, r, c)]) sid =
               appended calls sid @ [\<lparr>role = r, content = c\<rparr>]"
      using True by (simp add: appended_def turn_of_def)
    have le: "length (most_recent 20 (appended calls sid)) \<le> 20"
      by (simp add: most_recent_def)
    have "fst (getSessionHistory (run_adds (calls @ [(s, r, c)])) s) =
          most_recent 20 (appended (calls @ [(s, r, c)]) s)"
      using snoc.IH le unfolding True [symmetric]
      by (simp add: run history_addMessage app [unfolded True [symmetric]]
          most_recent_snoc tl_snoc_full Let_def)
    then show "fst (getSessionHistory (run_adds (calls @ [(s, r, c)])) sid) =
          most_recent 20 (appended (calls @ [(s, r, c)]) sid)"
      unfolding True .
  qed
qed

text \<open>
  C1. After any finite sequence of \<open>addMessage\<close> calls (on this and on other sessions),
  the history that \<open>getSessionHistory\<close> returns for a session has at most 20 turns, and
  it is exactly the most recent turns appended to that session, at most 20 of them, in
  the order they were appended. Each further append keeps the turns already there in
  place while there are fewer than 20, and otherwise drops exactly the oldest one, from
  the front.
\<close>

theorem session_history_bounded_fifo:
  "length (fst (getSessionHistory (run_adds calls) sid)) \<le> 20
   \<and> fst (getSessionHistory (run_adds calls) sid) = most_recent 20 (appended calls sid)
   \<and> fst (getSessionHistory (run_adds (calls @ [(sid, r, c)])) sid) =
       (let old = fst (getSessionHistory (run_adds calls) sid)
        in (if length old < 20 then old else tl old) @ [\<lparr>role = r, content = c\<rparr>])"
proof -
  have a: "fst (getSessionHistory (run_adds calls) sid) = most_recent 20 (appended calls sid)"
    by (rule history_run_adds)
  have b: "length (most_recent 20 (appended calls sid)) \<le> 20"
    by (simp add: most_recent_def)
  have c: "appended (calls @ [(sid, r, c)]) sid = appended calls sid @ [\<lparr>role = r, content = c\<rparr>]"
    by (simp add: appended_def turn_of_def)
  have d: "fst (getSessionHistory (run_adds (calls @ [(sid, r, c)])) sid) =
             most_recent 20 (appended calls sid @ [\<lparr>role = r, content = c\<rparr>])"
    by (simp add: history_run_adds c)
  show ?thesis
    unfolding a d using b by (simp add: most_recent_snoc Let_def)
qed


section \<open>Rate limiter: the sliding window\<close>

lemma isRateLimited_eq:
  "isRateLimited rc ip now =
     (if MAX_REQUESTS_PER_WINDOW \<le> length (filter (in_window now) (stored rc ip))
      then (True, rc)
      else (False, rc(ip \<mapsto> filter (in_window now) (stored rc ip) @ [now])))"
  by (cases "rc ip")
     (simp_all add: isRateLimited_def stored_def MAX_REQUESTS_PER_WINDOW_def Let_def)

lemma stored_upd: "stored (rc(ip \<mapsto> ts)) ip' = (if ip' = ip then ts else stored rc ip')"
  by (simp add: stored_def)

lemma stored_check_bound:
  assumes "\<And>k. length (stored rc k) \<le> 60"
  shows "length (stored (snd (isRateLimited rc ip now)) k) \<le> 60"
  using assms [of k]
  by (simp add: isRateLimited_eq stored_upd MAX_REQUESTS_PER_WINDOW_def)

lemma stored_sweep_bound:
  assumes "\<And>k. length (stored rc k) \<le> 60"
  shows "length (stored (cleanupRateLimitData rc now) k) \<le> 60"
proof (cases "rc k")
  case None
  then show ?thesis by (simp add: cleanupRateLimitData_def stored_def)
next
  case (Some ts)
  have "length (filter (in_window now) ts) \<le> length ts" by (rule length_filter_le)
  moreover have "length ts \<le> 60" using assms [of k] Some by (simp add: stored_def)
  ultimately have "length (filter (in_window now) ts) \<le> 60" by linarith
  then show ?thesis
    using Some by (simp add: cleanupRateLimitData_def stored_def Let_def)
qed

lemma stored_run_bound: "length (stored (rl_run evs) k) \<le> 60"
proof (induction evs arbitrary: k rule: rev_induct)
  case Nil
  show ?case by (simp add: rl_run_def stored_def)
next
  case (snoc ev evs)
  have run: "rl_run (evs @ [ev]) = rl_step (rl_run evs) ev"
    by (simp add: rl_run_def)
  show ?case
    unfolding run
    by (cases ev) (simp_all add: stored_check_bound stored_sweep_bound snoc.IH)
qed

lemma filter_all_of_full:
  assumes "length xs \<le> n" and "n \<le> length (filter P xs)"
  shows "filter P xs = xs"
proof -
  have "P x" if "x \<in> set xs" for x
  proof (rule ccontr)
    assume "\<not> P x"
    with that have "length (filter P xs) < length xs" by (rule length_filter_less)
    with assms show False by linarith
  qed
  then show ?thesis by (simp add: filter_id_conv)
qed

lemma rl_run_replicate:
  "n \<le> 60 \<Longrightarrow> rl_run (replicate n (Check k t)) = (if n = 0 then Map.empty else [k \<mapsto> replicate n t])"
proof (induction n)
  case 0
  show ?case by (simp add: rl_run_def)
next
  case (Suc n)
  have "replicate (Suc n) (Check k t) = replicate n (Check k t) @ [Check k t]"
    by (simp add: replicate_append_same)
  then have "rl_run (replicate (Suc n) (Check k t)) = rl_step (rl_run (replicate n (Check k t))) (Check k t)"
    by (simp add: rl_run_def)
  then show ?case using Suc
    by (auto simp add: isRateLimited_eq stored_def in_window_def RATE_LIMIT_WINDOW_def
       MAX_REQUESTS_PER_WINDOW_def replicate_append_same)
qed


text \<open>
  C3. At every clock reading and in every state of the map, \<open>isRateLimited\<close> returns
  true and leaves the map as it is when the key has at least 60 stored timestamps
  \<open>t\<close> with \<open>now - t < 60000\<close>; otherwise it stores the in-window timestamps
  followed by \<open>now\<close> for the key and returns false. In particular, when a key has
  exactly 60 timestamps, none older than 59 seconds, the next check is rejected; and a
  check made once the earliest of them is 60 seconds old or more is accepted.
\<close>

theorem isRateLimited_sliding_window:
  "isRateLimited rc ip now =
     (if 60 \<le> length (filter (in_window now) (stored rc ip))
      then (True, rc)
      else (False, rc(ip \<mapsto> filter (in_window now) (stored rc ip) @ [now])))
   \<and> (rc ip = Some ts \<and> length ts = 60 \<and> (\<forall>t \<in> set ts. 0 \<le> now - t \<and> now - t \<le> 59 * 1000)
        \<longrightarrow> isRateLimited rc ip now = (True, rc)
            \<and> (\<forall>later. 60 * 1000 \<le> later - Min (set ts)
                 \<longrightarrow> isRateLimited (snd (isRateLimited rc ip now)) ip later =
                       (False, rc(ip \<mapsto> filter (in_window later) ts @ [later]))))"
proof (intro conjI impI allI)
  show "isRateLimited rc ip now =
     (if 60 \<le> length (filter (in_window now) (stored rc ip))
      then (True, rc)
      else (False, rc(ip \<mapsto> filter (in_window now) (stored rc ip) @ [now])))"
    by (simp add: isRateLimited_eq MAX_REQUESTS_PER_WINDOW_def)
next
  assume h: "rc ip = Some ts \<and> length ts = 60
             \<and> (\<forall>t \<in> set ts. 0 \<le> now - t \<and> now - t \<le> 59 * 1000)"
  then have st: "stored rc ip = ts" by (simp add: stored_def)
  from h have "\<forall>t \<in> set ts. in_window now t"
    by (auto simp add: in_window_def RATE_LIMIT_WINDOW_def)
  then have "filter (in_window now) ts = ts" by (simp add: filter_id_conv)
  with h st show rej: "isRateLimited rc ip now = (True, rc)"
    by (simp add: isRateLimited_eq MAX_REQUESTS_PER_WINDOW_def)
  fix later :: int
  assume aged: "60 * 1000 \<le> later - Min (set ts)"
  from h have "ts \<noteq> []" by auto
  then have "Min (set ts) \<in> set ts" by simp
  moreover from aged have "\<not> in_window later (Min (set ts))"
    by (simp add: in_window_def RATE_LIMIT_WINDOW_def)
  ultimately have "length (filter (in_window later) ts) < length ts"
    by (rule length_filter_less)
  with h have "\<not> 60 \<le> length (filter (in_window later) ts)" by simp
  with st show "isRateLimited (snd (isRateLimited rc ip now)) ip later =
                  (False, rc(ip \<mapsto> filter (in_window later) ts @ [later]))"
    unfolding rej by (simp add: isRateLimited_eq MAX_REQUESTS_PER_WINDOW_def)
qed

theorem isRateLimited_sliding_window_witness:
  "isRateLimited [''10.0.0.1'' \<mapsto> replicate 60 1000] ''10.0.0.1'' 60000 =
     (True, [''10.0.0.1'' \<mapsto> replicate 60 1000])
   \<and> isRateLimited (snd (isRateLimited [''10.0.0.1'' \<mapsto> replicate 60 1000] ''10.0.0.1'' 60000))
        ''10.0.0.1'' 61000 = (False, [''10.0.0.1'' \<mapsto> [61000]])"
proof -
  let ?rc = "[''10.0.0.1'' \<mapsto> replicate 60 (1000::int)]"
  have h: "?rc ''10.0.0.1'' = Some (replicate 60 1000) \<and> length (replicate 60 (1000::int)) = 60
           \<and> (\<forall>t \<in> set (replicate 60 (1000::int)). 0 \<le> 60000 - t \<and> 60000 - t \<le> 59 * 1000)"
    by simp
  have m: "(60 * 1000 :: int) \<le> 61000 - Min (set (replicate 60 1000))" by simp
  have f: "filter (in_window 61000) (replicate 60 1000) = []"
    by (simp add: in_window_def RATE_LIMIT_WINDOW_def)
  have "?rc ''10.0.0.1'' = Some (replicate 60 1000) \<and> length (replicate 60 (1000::int)) = 60
           \<and> (\<forall>t \<in> set (replicate 60 (1000::int)). 0 \<le> 60000 - t \<and> 60000 - t \<le> 59 * 1000)
        \<longrightarrow> isRateLimited ?rc ''10.0.0.1'' 60000 = (True, ?rc)
            \<and> (\<forall>later. 60 * 1000 \<le> later - Min (set (replicate 60 (1000::int)))
                 \<longrightarrow> isRateLimited (snd (isRateLimited ?rc ''10.0.0.1'' 60000)) ''10.0.0.1'' later =
                       (False, ?rc(''10.0.0.1'' \<mapsto> filter (in_window later) (replicate 60 1000) @ [later])))"
    using isRateLimited_sliding_window [of ?rc "''10.0.0.1''" 60000 "replicate 60 1000"]
    by (rule conjunct2)
  from this h have c: "isRateLimited ?rc ''10.0.0.1'' 60000 = (True, ?rc)
            \<and> (\<forall>later. 60 * 1000 \<le> later - Min (set (replicate 60 (1000::int)))
                 \<longrightarrow> isRateLimited (snd (isRateLimited ?rc ''10.0.0.1'' 60000)) ''10.0.0.1'' later =
                       (False, ?rc(''10.0.0.1'' \<mapsto> filter (in_window later) (replicate 60 1000) @ [later])))"
    by (rule mp)
  then have c1: "isRateLimited ?rc ''10.0.0.1'' 60000 = (True, ?rc)" by (rule conjunct1)
  from c m have c2: "isRateLimited (snd (isRateLimited ?rc ''10.0.0.1'' 60000)) ''10.0.0.1'' 61000 =
           (False, ?rc(''10.0.0.1'' \<mapsto> filter (in_window 61000) (replicate 60 1000) @ [61000]))"
    by blast
  have u: "?rc(''10.0.0.1'' \<mapsto> filter (in_window 61000) (replicate 60 1000) @ [61000]) =
           [''10.0.0.1'' \<mapsto> [61000]]"
    unfolding f by simp
  show ?thesis using c1 c2 unfolding u by (rule conjI)
qed

text \<open>
  C5. In every state the module can reach, when \<open>isRateLimited\<close> rejects, the list
  stored for the key afterwards is the filtered list: the stored timestamps that are in
  the window, with no expired entry and without the timestamp of the rejected request.
  (A reachable list has at most 60 entries, so a rejection finds all of them in the
  window, and the list the early \<open>return true\<close> leaves in place is the filtered one.)
\<close>

theorem rejection_keeps_filtered_list:
  "fst (isRateLimited (rl_run evs) ip now) \<Longrightarrow>
     stored (snd (isRateLimited (rl_run evs) ip now)) ip =
       filter (in_window now) (stored (rl_run evs) ip)
     \<and> (\<forall>t \<in> set (stored (snd (isRateLimited (rl_run evs) ip now)) ip). in_window now t)
     \<and> length (stored (snd (isRateLimited (rl_run evs) ip now)) ip) =
         length (filter (in_window now) (stored (rl_run evs) ip))
     \<and> filter (in_window now) (stored (rl_run evs) ip) = stored (rl_run evs) ip"
proof -
  assume rej: "fst (isRateLimited (rl_run evs) ip now)"
  let ?rc = "rl_run evs"
  from rej have full: "60 \<le> length (filter (in_window now) (stored ?rc ip))"
    by (simp add: isRateLimited_eq MAX_REQUESTS_PER_WINDOW_def split: if_splits)
  then have same: "snd (isRateLimited ?rc ip now) = ?rc"
    by (simp add: isRateLimited_eq MAX_REQUESTS_PER_WINDOW_def)
  have "length (stored ?rc ip) \<le> 60" by (rule stored_run_bound)
  then have all_valid: "filter (in_window now) (stored ?rc ip) = stored ?rc ip"
    using full by (rule filter_all_of_full)
  then have "\<forall>t \<in> set (stored ?rc ip). in_window now t"
    by (simp add: filter_id_conv)
  with all_valid show ?thesis
    unfolding same by simp
qed

theorem rejection_keeps_filtered_list_witness:
  "fst (isRateLimited (rl_run (replicate 60 (Check ''10.0.0.1'' 1000))) ''10.0.0.1'' 2000)
   \<and> stored (snd (isRateLimited (rl_run (replicate 60 (Check ''10.0.0.1'' 1000))) ''10.0.0.1'' 2000))
        ''10.0.0.1'' = replicate 60 1000"
proof -
  have run: "rl_run (replicate 60 (Check ''10.0.0.1'' 1000)) = [''10.0.0.1'' \<mapsto> replicate 60 1000]"
    using rl_run_replicate [of 60 "''10.0.0.1''" 1000] by simp
  have f: "filter (in_window 2000) (replicate 60 1000) = replicate 60 1000"
    by (simp add: in_window_def RATE_LIMIT_WINDOW_def)
  have rej: "fst (isRateLimited (rl_run (replicate 60 (Check ''10.0.0.1'' 1000))) ''10.0.0.1'' 2000)"
    unfolding run by (simp add: isRateLimited_eq stored_def f MAX_REQUESTS_PER_WINDOW_def)
  from rejection_keeps_filtered_list [OF rej] rej show ?thesis
    unfolding run by (simp add: stored_def f)
qed

text \<open>
  C10. After any finite sequence of \<open>isRateLimited\<close> calls and sweeps, the list stored
  for a key has at most 60 entries. A rejecting call leaves the map unchanged; an
  accepting call stores the filtered list, which has fewer than 60 entries, followed by
  the one new timestamp.
\<close>

theorem stored_list_at_most_60:
  "length (stored (rl_run evs) ip) \<le> 60
   \<and> (if fst (isRateLimited rc ip now)
       then snd (isRateLimited rc ip now) = rc
       else length (filter (in_window now) (stored rc ip)) < 60
            \<and> stored (snd (isRateLimited rc ip now)) ip =
                filter (in_window now) (stored rc ip) @ [now])"
proof (intro conjI)
  show "length (stored (rl_run evs) ip) \<le> 60"
    by (rule stored_run_bound)
next
  let ?valid = "filter (in_window now) (stored rc ip)"
  show "if fst (isRateLimited rc ip now)
        then snd (isRateLimited rc ip now) = rc
        else length ?valid < 60
             \<and> stored (snd (isRateLimited rc ip now)) ip = ?valid @ [now]"
  proof (cases "60 \<le> length ?valid")
    case True
    then have "isRateLimited rc ip now = (True, rc)"
      by (simp add: isRateLimited_eq MAX_REQUESTS_PER_WINDOW_def)
    then show ?thesis by simp
  next
    case False
    then have "isRateLimited rc ip now = (False, rc(ip \<mapsto> ?valid @ [now]))"
      by (simp add: isRateLimited_eq MAX_REQUESTS_PER_WINDOW_def)
    with False show ?thesis by (simp add: stored_upd)
  qed
qed


section \<open>Chunker: the windows\<close>

lemma window_count_iff: "0 < s \<Longrightarrow> (k < window_count len s) = (k * s < len)"
proof -
  assume s: "0 < s"
  have "(k < window_count len s) = (Suc k \<le> (len + s - 1) div s)"
    by (simp add: window_count_def Suc_le_eq)
  also have "\<dots> = (Suc k * s \<le> len + s - 1)"
    using s by (simp add: less_eq_div_iff_mult_less_eq)
  also have "\<dots> = (k * s < len)"
    using s by (cases s) auto
  finally show ?thesis .
qed

lemma js_slice_nat:
  assumes "s < length xs"
  shows "js_slice xs (int s) (min (int s + int sz) (int (length xs))) = take sz (drop s xs)"
proof -
  have a: "min (int s + int sz) (int (length xs)) = int (min (s + sz) (length xs))"
    by simp
  have b: "nat (int (min (s + sz) (length xs)) - int s) = min sz (length xs - s)"
    using assms by (auto simp add: min_def)
  have c: "take (min sz (length xs - s)) (drop s xs) = take sz (drop s xs)"
    by (simp add: min_def)
  have "js_slice xs (int s) (int (min (s + sz) (length xs))) =
        take (nat (int (min (s + sz) (length xs)) - int s)) (drop s xs)"
    using assms by (simp add: js_slice_def Let_def min_def)
  then show ?thesis unfolding a b c .
qed

lemma js_slice_window:
  assumes "k * step < length text"
  shows "js_slice text (int (k * step)) (min (int (k * step) + int sz) (int (length text))) =
         window_at text sz step k"
  unfolding window_at_def using assms by (rule js_slice_nat)

lemma chunk_loop_windows:
  assumes "0 < sz" and "0 < step"
  shows "chunk_loop text (int sz) (int sz - int step) (int (k * step)) acc =
         Some (acc @ map (window_at text sz step) [k..<window_count (length text) step])"
proof (induction "window_count (length text) step - k" arbitrary: k acc)
  case 0
  then have "\<not> k < window_count (length text) step" by simp
  then have "\<not> k * step < length text" using assms by (simp add: window_count_iff)
  moreover have "[k..<window_count (length text) step] = []" using 0 by simp
  ultimately show ?case by (subst chunk_loop.simps) (simp flip: of_nat_mult)
next
  case (Suc d)
  then have lt: "k < window_count (length text) step" by simp
  then have pos: "k * step < length text" using assms by (simp add: window_count_iff)
  have next_start: "int (k * step) + (int sz - (int sz - int step)) = int (Suc k * step)"
    by (simp add: algebra_simps)
  have d: "d = window_count (length text) step - Suc k" using Suc.hyps(2) by simp
  have "chunk_loop text (int sz) (int sz - int step) (int (k * step)) acc =
        chunk_loop text (int sz) (int sz - int step) (int (Suc k * step))
          (acc @ [window_at text sz step k])"
    using pos
    by (subst chunk_loop.simps) (simp only: next_start js_slice_window Let_def of_nat_less_iff if_True)
  also have "\<dots> = Some ((acc @ [window_at text sz step k]) @
                 map (window_at text sz step) [Suc k..<window_count (length text) step])"
    by (rule Suc.hyps(1) [OF d])
  also have "\<dots> = Some (acc @ map (window_at text sz step) [k..<window_count (length text) step])"
    using lt by (simp add: upt_conv_Cons)
  finally show ?case .
qed

lemma chunkText_windows_eq:
  assumes "overlap < chunkSize" and "0 < chunkSize"
  shows "chunkText text chunkSize overlap =
         Some (map (window_at text (nat chunkSize) (nat (chunkSize - overlap)))
                [0..<window_count (length text) (nat (chunkSize - overlap))])"
proof -
  have "chunk_loop text (int (nat chunkSize)) (int (nat chunkSize) - int (nat (chunkSize - overlap)))
          (int (0 * nat (chunkSize - overlap))) [] =
        Some ([] @ map (window_at text (nat chunkSize) (nat (chunkSize - overlap)))
                [0..<window_count (length text) (nat (chunkSize - overlap))])"
    by (rule chunk_loop_windows) (use assms in simp_all)
  then show ?thesis using assms by (simp add: chunkText_def)
qed

lemma length_window_at:
  "length (window_at text sz step k) = min sz (length text - k * step)"
  by (simp add: window_at_def)

lemma window_suffix_prefix:
  assumes "step \<le> sz"
  shows "drop step (window_at text sz step k) =
         take (length (window_at text sz step k) - step) (window_at text sz step (Suc k))"
proof -
  let ?xs = "drop (k * step) text"
  let ?ys = "drop (Suc k * step) text"
  have ys: "?ys = drop step ?xs" by (simp add: add.commute)
  have l: "drop step (take sz ?xs) = take (sz - step) ?ys"
    unfolding ys by (simp add: drop_take)
  have "take (min sz (length ?xs) - step) (take sz ?ys) = take (min sz (length ?xs) - step) ?ys"
    by (simp add: min_def)
  also have "\<dots> = take (sz - step) ?ys"
  proof (cases "sz \<le> length ?xs")
    case True
    then show ?thesis by (simp add: min_def)
  next
    case False
    then have "length ?ys \<le> sz - step" "length ?ys \<le> min sz (length ?xs) - step"
      unfolding ys by (simp_all add: min_def)
    then show ?thesis by (simp only: take_all)
  qed
  finally have m: "take (min sz (length ?xs) - step) (take sz ?ys) = take (sz - step) ?ys" .
  have "length (take sz ?xs) = min sz (length ?xs)" by simp
  then have "take (length (take sz ?xs) - step) (take sz ?ys) = drop step (take sz ?xs)"
    unfolding l using m by (simp only:)
  then show ?thesis unfolding window_at_def by (rule sym)
qed

text \<open>
  C2 (as amended). For \<open>0 < overlap < size\<close> the loop ends and \<open>chunkText\<close> returns
  exactly the windows \<open>text[k * step : k * step + size]\<close>, \<open>step = size - overlap\<close>, for
  the \<open>k\<close> with \<open>k * step < length text\<close>, in that order (being a function of its
  arguments, identical input gives the identical sequence). Every position of the text
  lies in some window, every window is non-empty and has at most \<open>size\<close> characters:
  it has \<open>size\<close> of them, or fewer when the text ends before, so only windows at the
  end of the text can be shorter. Consecutive windows \<open>k\<close> and \<open>k + 1\<close> share
  \<open>min overlap (L - start of window k + 1)\<close> characters, the end of the one being the
  beginning of the other: exactly \<open>overlap\<close> whenever window \<open>k\<close> has the full \<open>size\<close>
  characters.
\<close>

theorem chunkText_windows:
  assumes "0 < overlap" and "overlap < chunkSize"
  shows "let sz = nat chunkSize; step = nat (chunkSize - overlap);
             n = window_count (length text) step;
             ws = map (window_at text sz step) [0..<n]
         in chunkText text chunkSize overlap = Some ws
          \<and> (\<forall>k. (k < n) = (k * step < length text))
          \<and> (\<forall>p < length text. \<exists>k < n. k * step \<le> p \<and> p < k * step + length (ws ! k))
          \<and> (\<forall>k < n. ws ! k \<noteq> [] \<and> length (ws ! k) \<le> sz
                     \<and> length (ws ! k) = min sz (length text - k * step))
          \<and> (\<forall>k. Suc k < n \<longrightarrow>
                 shared_with_next chunkSize overlap ws k =
                   min overlap (int (length text) - int (Suc k * step))
               \<and> drop step (ws ! k) = take (nat (shared_with_next chunkSize overlap ws k)) (ws ! Suc k)
               \<and> (length (ws ! k) = sz \<longrightarrow> shared_with_next chunkSize overlap ws k = overlap))"
proof -
  define sz where "sz = nat chunkSize"
  define step where "step = nat (chunkSize - overlap)"
  define n where "n = window_count (length text) step"
  define ws where "ws = map (window_at text sz step) [0..<n]"
  have sz: "0 < sz" "int sz = chunkSize" using assms by (simp_all add: sz_def)
  have step: "0 < step" "step < sz" "int step = chunkSize - overlap"
    using assms by (simp_all add: step_def sz_def)
  have nth: "ws ! k = window_at text sz step k" if "k < n" for k
    using that by (simp add: ws_def)
  have count: "(k < n) = (k * step < length text)" for k
    unfolding n_def using step(1) by (rule window_count_iff)
  have eq: "chunkText text chunkSize overlap = Some ws"
    using chunkText_windows_eq [of overlap chunkSize "text"] assms
    by (simp add: ws_def n_def step_def sz_def)
  have cover: "\<exists>k < n. k * step \<le> p \<and> p < k * step + length (ws ! k)" if "p < length text" for p
  proof -
    let ?k = "p div step"
    have lo: "?k * step \<le> p" by simp
    have "?k * step + p mod step = p" by (rule div_mult_mod_eq)
    moreover have "p mod step < step" using step(1) by simp
    ultimately have hi: "p < ?k * step + step" by linarith
    from lo that have "?k * step < length text" by (rule le_less_trans)
    then have kn: "?k < n" by (simp only: count)
    define s where "s = ?k * step"
    have "p < s + min sz (length text - s)"
      using lo hi that step(2) unfolding s_def [symmetric] by (simp add: min_def)
    then have "p < ?k * step + min sz (length text - ?k * step)"
      unfolding s_def .
    then show ?thesis using kn lo by (auto simp add: nth length_window_at)
  qed
  have len: "ws ! k \<noteq> [] \<and> length (ws ! k) \<le> sz
             \<and> length (ws ! k) = min sz (length text - k * step)" if "k < n" for k
  proof -
    from that have pos: "k * step < length text" by (simp only: count)
    have l: "length (ws ! k) = min sz (length text - k * step)"
      using that by (simp only: nth length_window_at)
    have "0 < min sz (length text - k * step)" using sz(1) pos by simp
    then have "ws ! k \<noteq> []" unfolding l [symmetric] by simp
    moreover have "length (ws ! k) \<le> sz" unfolding l by simp
    ultimately show ?thesis using l by blast
  qed
  have ov: "shared_with_next chunkSize overlap ws k =
              min overlap (int (length text) - int (Suc k * step))
            \<and> drop step (ws ! k) = take (nat (shared_with_next chunkSize overlap ws k)) (ws ! Suc k)
            \<and> (length (ws ! k) = sz \<longrightarrow> shared_with_next chunkSize overlap ws k = overlap)"
    if "Suc k < n" for k
  proof -
    from that have k: "k < n" by simp
    from that have pos: "Suc k * step < length text" by (simp add: count)
    have sh: "shared_with_next chunkSize overlap ws k = int (length (ws ! k)) - int step"
      by (simp add: shared_with_next_def step(3))
    have pos': "k * step + step < length text" using pos by (simp add: add.commute)
    have l: "length (ws ! k) = min sz (length text - k * step)"
      using k by (simp only: nth length_window_at)
    have ge: "step \<le> length (ws ! k)"
      unfolding l using pos' step(2) by arith
    have "int (min sz (length text - k * step)) - int step =
          min (int sz - int step) (int (length text) - int (k * step + step))"
      using pos' step(2) by arith
    then have 1: "shared_with_next chunkSize overlap ws k =
               min overlap (int (length text) - int (Suc k * step))"
      unfolding sh l using step(3) sz(2) by (simp add: add.commute)
    have "nat (shared_with_next chunkSize overlap ws k) = length (ws ! k) - step"
      using ge by (simp add: sh)
    then have 2: "drop step (ws ! k) =
                  take (nat (shared_with_next chunkSize overlap ws k)) (ws ! Suc k)"
      using window_suffix_prefix [of step sz "text" k] step(2)
      by (simp add: nth [OF k] nth [OF that])
    have 3: "length (ws ! k) = sz \<longrightarrow> shared_with_next chunkSize overlap ws k = overlap"
      using step(3) sz(2) by (simp add: sh)
    from 1 2 3 show ?thesis by blast
  qed
  from eq count cover len ov show ?thesis
    unfolding Let_def sz_def [symmetric] step_def [symmetric] n_def [symmetric] ws_def [symmetric]
    by blast
qed

text \<open>
  C2 as stated fails: with \<open>size = 10\<close> and \<open>overlap = 8\<close> a text of 10 characters
  gives five chunks, and the second and third, neither of them the last, share 6
  characters (the third has only 6).
\<close>

theorem chunkText_overlap_counterexample:
  "chunkText ''abcdefghij'' 10 8 = Some [''abcdefghij'', ''cdefghij'', ''efghij'', ''ghij'', ''ij'']
   \<and> shared_with_next 10 8 [''abcdefghij'', ''cdefghij'', ''efghij'', ''ghij'', ''ij''] 1 = 6
   \<and> \<not> exact_overlap_except_last 10 8 [''abcdefghij'', ''cdefghij'', ''efghij'', ''ghij'', ''ij'']"
proof -
  have "map (window_at ''abcdefghij'' (nat 10) (nat (10 - 8)))
          [0..<window_count (length ''abcdefghij'') (nat (10 - 8))] =
        [''abcdefghij'', ''cdefghij'', ''efghij'', ''ghij'', ''ij'']"
    by code_simp
  then have 1: "chunkText ''abcdefghij'' 10 8 =
                Some [''abcdefghij'', ''cdefghij'', ''efghij'', ''ghij'', ''ij'']"
    using chunkText_windows_eq [of 8 10 "''abcdefghij''"] by simp
  have 2: "shared_with_next 10 8 [''abcdefghij'', ''cdefghij'', ''efghij'', ''ghij'', ''ij''] 1 = 6"
    by (simp add: shared_with_next_def)
  have 3: "\<not> exact_overlap_except_last 10 8
               [''abcdefghij'', ''cdefghij'', ''efghij'', ''ghij'', ''ij'']"
    by (simp add: exact_overlap_except_last_def shared_with_next_def upt_rec)
  from 1 2 3 show ?thesis by blast
qed

theorem chunkText_windows_witness:
  "(0::int) < 200 \<and> (200::int) < 800
   \<and> chunkText (replicate 1000 CHR ''x'') 800 200 =
       Some [replicate 800 CHR ''x'', replicate 400 CHR ''x'']"
proof -
  have h1: "(0::int) < 200" and h2: "(200::int) < 800" by simp_all
  have n: "window_count (length (replicate 1000 CHR ''x'')) (nat (800 - 200)) = 2"
    by (simp add: window_count_def)
  have u: "[0..<2] = [0, Suc 0]" by (simp add: upt_rec)
  have "chunkText (replicate 1000 CHR ''x'') 800 200 =
        Some (map (window_at (replicate 1000 CHR ''x'') (nat 800) (nat (800 - 200))) [0..<2])"
    using chunkText_windows [OF h1 h2, of "replicate 1000 CHR ''x''"] unfolding Let_def n
    by (rule conjunct1)
  then show ?thesis unfolding u by (simp add: window_at_def)
qed


section \<open>Embedding store: initialization\<close>

lemma js_slice_batch: "js_slice xs (int i) (int i + int bs) = take bs (drop i xs)"
proof (cases "i \<le> length xs")
  case True
  have "nat (min (int i + int bs) (int (length xs)) - int i) = min bs (length xs - i)"
    using True by (auto simp add: min_def)
  moreover have "take (min bs (length xs - i)) (drop i xs) = take bs (drop i xs)"
    by (simp add: min_def)
  ultimately show ?thesis
    using True by (simp add: js_slice_def Let_def min_def)
next
  case False
  then show ?thesis by (simp add: js_slice_def Let_def min_def)
qed

lemma generateEmbeddings_ok:
  assumes "openaiClient st \<or> api_key_set env"
  shows "generateEmbeddings env st texts =
         (embeddings_create env (api_calls st) texts,
          st\<lparr>openaiClient := True, api_calls := Suc (api_calls st)\<rparr>)"
  using assms by (cases st) (auto simp add: generateEmbeddings_def getOpenAIClient_def)

lemma generateEmbeddings_no_key:
  assumes "\<not> openaiClient st" and "\<not> api_key_set env"
  shows "generateEmbeddings env st texts = (Inl MissingApiKey, st)"
  using assms by (simp add: generateEmbeddings_def getOpenAIClient_def)

lemma generateEmbeddings_cache:
  "embeddingsCache (snd (generateEmbeddings env st texts)) = embeddingsCache st"
  by (simp add: generateEmbeddings_def getOpenAIClient_def)

lemma generateEmbeddings_Inr:
  assumes "generateEmbeddings env st texts = (Inr vs, st1)"
  shows "embeddings_create env (api_calls st) texts = Inr vs"
    and "api_calls st1 = Suc (api_calls st)"
    and "openaiClient st1"
    and "openaiClient st \<or> api_key_set env"
  using assms by (auto simp add: generateEmbeddings_def getOpenAIClient_def split: if_splits)

lemma embed_batches_step:
  assumes "0 < bs"
  shows "embed_batches env bs chunks st (j * bs) acc =
         (if j < batch_count bs chunks
          then (case generateEmbeddings env st (batch_texts bs chunks j) of
                  (Inl e, st1) \<Rightarrow> Some (Inl e, st1)
                | (Inr vs, st1) \<Rightarrow> embed_batches env bs chunks st1 (Suc j * bs) (acc @ vs))
          else Some (Inr acc, st))"
proof -
  have c: "(j < batch_count bs chunks) = (j * bs < length chunks)"
    unfolding batch_count_def using assms by (rule window_count_iff)
  have n: "j * bs + bs = Suc j * bs" by simp
  show ?thesis
    by (subst embed_batches.simps)
       (simp only: c js_slice_batch batch_texts_def Let_def n)
qed

lemma embed_batches_total:
  assumes "0 < bs"
  shows "\<exists>r. embed_batches env bs chunks st (j * bs) acc = Some r"
proof (induction "batch_count bs chunks - j" arbitrary: j st acc)
  case 0
  then show ?case by (simp add: embed_batches_step [OF assms])
next
  case (Suc d)
  then have lt: "j < batch_count bs chunks" and d: "d = batch_count bs chunks - Suc j"
    by simp_all
  obtain r st1 where g: "generateEmbeddings env st (batch_texts bs chunks j) = (r, st1)"
    by (cases "generateEmbeddings env st (batch_texts bs chunks j)")
  show ?case
  proof (cases r)
    case (Inl e)
    then show ?thesis using lt g by (simp add: embed_batches_step [OF assms, of _ _ _ j])
  next
    case (Inr vs)
    from Suc.hyps(1) [OF d, of st1 "acc @ vs"]
    show ?thesis using lt g Inr by (simp add: embed_batches_step [OF assms, of _ _ _ j])
  qed
qed

lemma embed_batches_cache:
  assumes "0 < bs" and "embed_batches env bs chunks st (j * bs) acc = Some (r, st')"
  shows "embeddingsCache st' = embeddingsCache st"
  using assms(2)
proof (induction "batch_count bs chunks - j" arbitrary: j st acc)
  case 0
  then show ?case by (simp add: embed_batches_step [OF assms(1)])
next
  case (Suc d)
  then have lt: "j < batch_count bs chunks" and d: "d = batch_count bs chunks - Suc j"
    by simp_all
  obtain r1 st1 where g: "generateEmbeddings env st (batch_texts bs chunks j) = (r1, st1)"
    by (cases "generateEmbeddings env st (batch_texts bs chunks j)")
  have c1: "embeddingsCache st1 = embeddingsCache st"
    using generateEmbeddings_cache [of env st "batch_texts bs chunks j"] g by simp
  show ?case
  proof (cases r1)
    case (Inl e)
    then show ?thesis
      using lt g c1 Suc.prems by (simp add: embed_batches_step [OF assms(1), of _ _ _ j])
  next
    case (Inr vs)
    then have "embed_batches env bs chunks st1 (Suc j * bs) (acc @ vs) = Some (r, st')"
      using lt g Suc.prems by (simp add: embed_batches_step [OF assms(1), of _ _ _ j])
    from Suc.hyps(1) [OF d this] c1 show ?thesis by simp
  qed
qed

lemma embed_batches_success:
  assumes "0 < bs" and "embed_batches env bs chunks st (j * bs) acc = Some (Inr embs, st')"
  shows "\<exists>rs. length rs = batch_count bs chunks - j
            \<and> embs = acc @ concat rs
            \<and> (\<forall>k < batch_count bs chunks - j.
                  embeddings_create env (api_calls st + k) (batch_texts bs chunks (j + k)) =
                    Inr (rs ! k))
            \<and> api_calls st' = api_calls st + (batch_count bs chunks - j)"
  using assms(2)
proof (induction "batch_count bs chunks - j" arbitrary: j st acc)
  case 0
  then show ?case by (simp add: embed_batches_step [OF assms(1)])
next
  case (Suc d)
  then have lt: "j < batch_count bs chunks" and d: "d = batch_count bs chunks - Suc j"
    by simp_all
  obtain r1 st1 where g: "generateEmbeddings env st (batch_texts bs chunks j) = (r1, st1)"
    by (cases "generateEmbeddings env st (batch_texts bs chunks j)")
  show ?case
  proof (cases r1)
    case (Inl e)
    then show ?thesis
      using lt g Suc.prems by (simp add: embed_batches_step [OF assms(1), of _ _ _ j])
  next
    case (Inr vs)
    then have rec: "embed_batches env bs chunks st1 (Suc j * bs) (acc @ vs) = Some (Inr embs, st')"
      using lt g Suc.prems by (simp add: embed_batches_step [OF assms(1), of _ _ _ j])
    from g Inr have g': "generateEmbeddings env st (batch_texts bs chunks j) = (Inr vs, st1)"
      by simp
    note first = generateEmbeddings_Inr(1,2) [OF g']
    from Suc.hyps(1) [OF d rec] obtain rs where
      rs: "length rs = batch_count bs chunks - Suc j"
          "embs = (acc @ vs) @ concat rs"
          "\<forall>k < batch_count bs chunks - Suc j.
              embeddings_create env (api_calls st1 + k) (batch_texts bs chunks (Suc j + k)) =
                Inr (rs ! k)"
          "api_calls st' = api_calls st1 + (batch_count bs chunks - Suc j)"
      by blast
    have "\<forall>k < batch_count bs chunks - j.
            embeddings_create env (api_calls st + k) (batch_texts bs chunks (j + k)) =
              Inr ((vs # rs) ! k)"
    proof (intro allI impI)
      fix k assume k: "k < batch_count bs chunks - j"
      show "embeddings_create env (api_calls st + k) (batch_texts bs chunks (j + k)) =
              Inr ((vs # rs) ! k)"
      proof (cases k)
        case 0
        then show ?thesis using first(1) by simp
      next
        case (Suc k')
        then have "k' < batch_count bs chunks - Suc j" using k by simp
        with rs(3) have "embeddings_create env (api_calls st1 + k')
                           (batch_texts bs chunks (Suc j + k')) = Inr (rs ! k')"
          by blast
        then show ?thesis using Suc first(2) by simp
      qed
    qed
    moreover have "length (vs # rs) = batch_count bs chunks - j" using rs(1) lt by simp
    moreover have "embs = acc @ concat (vs # rs)" using rs(2) by simp
    moreover have "api_calls st' = api_calls st + (batch_count bs chunks - j)"
      using rs(4) first(2) lt by simp
    ultimately show ?thesis by blast
  qed
qed


lemma embed_batches_all_ok:
  assumes "0 < bs" and "openaiClient st \<or> api_key_set env"
    and "\<forall>k < batch_count bs chunks - j.
           embeddings_create env (api_calls st + k) (batch_texts bs chunks (j + k)) =
             Inr (rs (j + k))"
  shows "embed_batches env bs chunks st (j * bs) acc =
         Some (Inr (acc @ concat (map rs [j..<batch_count bs chunks])),
               if j < batch_count bs chunks
               then st\<lparr>openaiClient := True,
                       api_calls := api_calls st + (batch_count bs chunks - j)\<rparr>
               else st)"
  using assms(2,3)
proof (induction "batch_count bs chunks - j" arbitrary: j st acc)
  case 0
  then show ?case by (simp add: embed_batches_step [OF assms(1)])
next
  case (Suc d)
  let ?nb = "batch_count bs chunks"
  from Suc.hyps(2) have lt: "j < ?nb" and d: "d = ?nb - Suc j" by simp_all
  let ?st1 = "st\<lparr>openaiClient := True, api_calls := Suc (api_calls st)\<rparr>"
  have "embeddings_create env (api_calls st + 0) (batch_texts bs chunks (j + 0)) = Inr (rs (j + 0))"
    using Suc.prems(2) lt by (metis zero_less_diff)
  then have g: "generateEmbeddings env st (batch_texts bs chunks j) = (Inr (rs j), ?st1)"
    using generateEmbeddings_ok [OF Suc.prems(1)] by simp
  have ok1: "openaiClient ?st1 \<or> api_key_set env" by simp
  have hyp1: "\<forall>k < ?nb - Suc j.
           embeddings_create env (api_calls ?st1 + k) (batch_texts bs chunks (Suc j + k)) =
             Inr (rs (Suc j + k))"
  proof (intro allI impI)
    fix k assume "k < ?nb - Suc j"
    then have "Suc k < ?nb - j" by simp
    with Suc.prems(2) have "embeddings_create env (api_calls st + Suc k)
        (batch_texts bs chunks (j + Suc k)) = Inr (rs (j + Suc k))" by blast
    then show "embeddings_create env (api_calls ?st1 + k) (batch_texts bs chunks (Suc j + k)) =
             Inr (rs (Suc j + k))" by simp
  qed
  have fin: "(if Suc j < ?nb
              then ?st1\<lparr>openaiClient := True, api_calls := api_calls ?st1 + (?nb - Suc j)\<rparr>
              else ?st1) = st\<lparr>openaiClient := True, api_calls := api_calls st + (?nb - j)\<rparr>"
    using lt by (cases "Suc j < ?nb") (simp_all add: Suc_diff_Suc)
  have "embed_batches env bs chunks st (j * bs) acc =
        embed_batches env bs chunks ?st1 (Suc j * bs) (acc @ rs j)"
    using lt g by (simp add: embed_batches_step [OF assms(1), of _ _ _ j])
  also have "\<dots> = Some (Inr ((acc @ rs j) @ concat (map rs [Suc j..<?nb])),
               if Suc j < ?nb
               then ?st1\<lparr>openaiClient := True, api_calls := api_calls ?st1 + (?nb - Suc j)\<rparr>
               else ?st1)"
    by (rule Suc.hyps(1) [OF d ok1 hyp1])
  finally show ?case
    unfolding fin using lt by (simp add: upt_conv_Cons)
qed

lemma embed_batches_fails:
  assumes "0 < bs" and "openaiClient st \<or> api_key_set env"
    and "j \<le> k" and "k < batch_count bs chunks"
    and "\<forall>i < k - j. \<exists>vs.
           embeddings_create env (api_calls st + i) (batch_texts bs chunks (j + i)) = Inr vs"
    and "embeddings_create env (api_calls st + (k - j)) (batch_texts bs chunks k) = Inl e"
  shows "embed_batches env bs chunks st (j * bs) acc =
         Some (Inl e, st\<lparr>openaiClient := True, api_calls := Suc (api_calls st + (k - j))\<rparr>)"
  using assms(2,3,5,6)
proof (induction "k - j" arbitrary: j st acc)
  case 0
  then have jk: "j = k" by simp
  let ?st1 = "st\<lparr>openaiClient := True, api_calls := Suc (api_calls st)\<rparr>"
  have g: "generateEmbeddings env st (batch_texts bs chunks k) = (Inl e, ?st1)"
    using generateEmbeddings_ok [OF "0.prems"(1)] "0.prems"(4) jk by simp
  show ?case
    using assms(4) g unfolding jk by (simp add: embed_batches_step [OF assms(1), of _ _ _ k])
next
  case (Suc d)
  from Suc.hyps(2) have lt: "j < k" and d: "d = k - Suc j" by simp_all
  with assms(4) have jn: "j < batch_count bs chunks" by simp
  let ?st1 = "st\<lparr>openaiClient := True, api_calls := Suc (api_calls st)\<rparr>"
  from Suc.prems(3) lt obtain vs where
    "embeddings_create env (api_calls st + 0) (batch_texts bs chunks (j + 0)) = Inr vs"
    by (metis zero_less_diff)
  then have g: "generateEmbeddings env st (batch_texts bs chunks j) = (Inr vs, ?st1)"
    using generateEmbeddings_ok [OF Suc.prems(1)] by simp
  have ok1: "openaiClient ?st1 \<or> api_key_set env" by simp
  have le1: "Suc j \<le> k" using lt by simp
  have hyp1: "\<forall>i < k - Suc j. \<exists>vs.
           embeddings_create env (api_calls ?st1 + i) (batch_texts bs chunks (Suc j + i)) = Inr vs"
  proof (intro allI impI)
    fix i assume "i < k - Suc j"
    then have "Suc i < k - j" by simp
    with Suc.prems(3) obtain ws where "embeddings_create env (api_calls st + Suc i)
        (batch_texts bs chunks (j + Suc i)) = Inr ws" by blast
    then show "\<exists>vs. embeddings_create env (api_calls ?st1 + i)
        (batch_texts bs chunks (Suc j + i)) = Inr vs" by simp
  qed
  have last1: "embeddings_create env (api_calls ?st1 + (k - Suc j)) (batch_texts bs chunks k) = Inl e"
    using Suc.prems(4) lt by (simp add: Suc_diff_Suc)
  have "embed_batches env bs chunks st (j * bs) acc =
        embed_batches env bs chunks ?st1 (Suc j * bs) (acc @ vs)"
    using jn g by (simp add: embed_batches_step [OF assms(1), of _ _ _ j])
  also have "\<dots> = Some (Inl e, ?st1\<lparr>openaiClient := True,
                                     api_calls := Suc (api_calls ?st1 + (k - Suc j))\<rparr>)"
    by (rule Suc.hyps(1) [OF d ok1 le1 hyp1 last1])
  finally show ?case using lt by (simp add: Suc_diff_Suc)
qed

lemma chunk_files_eq: "chunk_files files acc = Some (acc @ all_chunks files)"
proof (induction files arbitrary: acc)
  case Nil
  show ?case by (simp add: all_chunks_def)
next
  case (Cons f fs)
  have "chunkText (file_content f) 800 200 =
        Some (map (window_at (file_content f) 800 600)
               [0..<window_count (length (file_content f)) 600])"
    using chunkText_windows_eq [of 200 800 "file_content f"] by simp
  then show ?case
    using Cons.IH by (simp add: all_chunks_def file_chunks_def)
qed

lemma length_combine: "length (combine chunks embs) = length chunks"
  by (simp add: combine_def)

lemma combine_nth:
  assumes "i < length chunks"
  shows "combine chunks embs ! i =
         \<lparr>item_text = chunk_text (chunks ! i),
          item_embedding = js_index embs i,
          item_source = chunk_source (chunks ! i)\<rparr>"
  using assms by (simp add: combine_def)

lemma responses_eq:
  assumes "length rs = batch_count bs chunks"
    and "\<forall>k < batch_count bs chunks.
           embeddings_create env (first + k) (batch_texts bs chunks k) = Inr (rs ! k)"
  shows "concat rs = vectors_returned env first bs chunks"
proof -
  have "map (response env first bs chunks) [0..<batch_count bs chunks] = rs"
    using assms by (intro nth_equalityI) (simp_all add: response_def)
  then show ?thesis by (simp add: vectors_returned_def)
qed

lemma initializeEmbeddings_batched_total:
  assumes "0 < bs"
  shows "\<exists>r. initializeEmbeddings_batched bs env st = Some r"
proof (cases "embeddingsCache st")
  case (Some cache)
  then show ?thesis by (simp add: initializeEmbeddings_batched_def)
next
  case None
  obtain r st1 where "embed_batches env bs (all_chunks (loadDataFiles env)) st (0 * bs) [] = Some (r, st1)"
    using embed_batches_total [OF assms, of env "all_chunks (loadDataFiles env)" st 0 "[]"]
    by auto
  then show ?thesis
    using None by (cases r) (simp_all add: initializeEmbeddings_batched_def chunk_files_eq Let_def)
qed

lemma initializeEmbeddings_batched_success:
  assumes "0 < bs" and "embeddingsCache st = None"
    and "initializeEmbeddings_batched bs env st = Some (Inr cache, st')"
  shows "cache = combine (all_chunks (loadDataFiles env))
                   (vectors_returned env (api_calls st) bs (all_chunks (loadDataFiles env)))"
    and "embeddingsCache st' = Some cache"
    and "\<forall>j < batch_count bs (all_chunks (loadDataFiles env)). \<exists>vs.
           embeddings_create env (api_calls st + j)
             (batch_texts bs (all_chunks (loadDataFiles env)) j) = Inr vs"
    and "api_calls st' = api_calls st + batch_count bs (all_chunks (loadDataFiles env))"
proof -
  let ?chunks = "all_chunks (loadDataFiles env)"
  obtain r st1 where eb: "embed_batches env bs ?chunks st (0 * bs) [] = Some (r, st1)"
    using embed_batches_total [OF assms(1), of env ?chunks st 0 "[]"] by auto
  from assms(2,3) eb obtain embs where r: "r = Inr embs"
    and res: "cache = combine ?chunks embs" "st' = st1\<lparr>embeddingsCache := Some cache\<rparr>"
    by (cases r) (auto simp add: initializeEmbeddings_batched_def chunk_files_eq Let_def)
  from embed_batches_success [OF assms(1) eb [unfolded r]] obtain rs where
    rs: "length rs = batch_count bs ?chunks" "embs = concat rs"
        "\<forall>k < batch_count bs ?chunks.
            embeddings_create env (api_calls st + k) (batch_texts bs ?chunks k) = Inr (rs ! k)"
        "api_calls st1 = api_calls st + batch_count bs ?chunks"
    by auto
  from responses_eq [OF rs(1,3)] rs(2) res(1)
  show "cache = combine ?chunks (vectors_returned env (api_calls st) bs ?chunks)" by simp
  from res(2) show "embeddingsCache st' = Some cache" by simp
  from rs(3) show "\<forall>j < batch_count bs ?chunks. \<exists>vs.
           embeddings_create env (api_calls st + j) (batch_texts bs ?chunks j) = Inr vs"
    by blast
  from rs(4) res(2) show "api_calls st' = api_calls st + batch_count bs ?chunks" by simp
qed

lemma initializeEmbeddings_batched_all_ok:
  assumes "0 < bs" and "embeddingsCache st = None" and "openaiClient st \<or> api_key_set env"
    and "\<forall>j < batch_count bs (all_chunks (loadDataFiles env)). \<exists>vs.
           embeddings_create env (api_calls st + j)
             (batch_texts bs (all_chunks (loadDataFiles env)) j) = Inr vs"
  shows "initializeEmbeddings_batched bs env st =
         Some (Inr (combine (all_chunks (loadDataFiles env))
                     (vectors_returned env (api_calls st) bs (all_chunks (loadDataFiles env)))),
               (if 0 < batch_count bs (all_chunks (loadDataFiles env))
                then st\<lparr>openaiClient := True,
                        api_calls := api_calls st + batch_count bs (all_chunks (loadDataFiles env))\<rparr>
                else st)
               \<lparr>embeddingsCache :=
                  Some (combine (all_chunks (loadDataFiles env))
                         (vectors_returned env (api_calls st) bs
                            (all_chunks (loadDataFiles env))))\<rparr>)"
proof -
  let ?chunks = "all_chunks (loadDataFiles env)"
  let ?rs = "response env (api_calls st) bs ?chunks"
  have "\<forall>k < batch_count bs ?chunks - 0.
          embeddings_create env (api_calls st + k) (batch_texts bs ?chunks (0 + k)) =
            Inr (?rs (0 + k))"
    using assms(4) by (auto simp add: response_def)
  from embed_batches_all_ok [OF assms(1,3) this, of "[]"]
  have "embed_batches env bs ?chunks st 0 [] =
        Some (Inr (vectors_returned env (api_calls st) bs ?chunks),
              if 0 < batch_count bs ?chunks
              then st\<lparr>openaiClient := True, api_calls := api_calls st + batch_count bs ?chunks\<rparr>
              else st)"
    by (simp add: vectors_returned_def)
  then show ?thesis
    using assms(2) by (simp add: initializeEmbeddings_batched_def chunk_files_eq Let_def)
qed

lemma initializeEmbeddings_batched_fails:
  assumes "0 < bs" and "embeddingsCache st = None" and "openaiClient st \<or> api_key_set env"
    and "k < batch_count bs (all_chunks (loadDataFiles env))"
    and "\<forall>j < k. \<exists>vs. embeddings_create env (api_calls st + j)
                        (batch_texts bs (all_chunks (loadDataFiles env)) j) = Inr vs"
    and "embeddings_create env (api_calls st + k)
           (batch_texts bs (all_chunks (loadDataFiles env)) k) = Inl e"
  shows "initializeEmbeddings_batched bs env st =
         Some (Inl e, st\<lparr>openaiClient := True, api_calls := Suc (api_calls st + k)\<rparr>)"
proof -
  let ?chunks = "all_chunks (loadDataFiles env)"
  have a: "\<forall>i < k - 0. \<exists>vs.
             embeddings_create env (api_calls st + i) (batch_texts bs ?chunks (0 + i)) = Inr vs"
    using assms(5) by simp
  have b: "embeddings_create env (api_calls st + (k - 0)) (batch_texts bs ?chunks k) = Inl e"
    using assms(6) by simp
  from embed_batches_fails [OF assms(1,3) le0 assms(4) a b, of "[]"]
  show ?thesis
    using assms(2) by (simp add: initializeEmbeddings_batched_def chunk_files_eq)
qed

lemma initializeEmbeddings_batched_no_key:
  assumes "0 < bs" and "embeddingsCache st = None"
    and "\<not> openaiClient st" and "\<not> api_key_set env"
    and "all_chunks (loadDataFiles env) \<noteq> []"
  shows "initializeEmbeddings_batched bs env st = Some (Inl MissingApiKey, st)"
proof -
  let ?chunks = "all_chunks (loadDataFiles env)"
  have "0 * bs < length ?chunks" using assms(5) by simp
  then have "0 < batch_count bs ?chunks"
    unfolding batch_count_def using assms(1) by (simp only: window_count_iff)
  then have "embed_batches env bs ?chunks st (0 * bs) [] = Some (Inl MissingApiKey, st)"
    by (subst embed_batches_step [OF assms(1)])
       (simp add: generateEmbeddings_no_key [OF assms(3,4)])
  then show ?thesis
    using assms(2) by (simp add: initializeEmbeddings_batched_def chunk_files_eq)
qed

lemma initializeEmbeddings_batched_failure_cache:
  assumes "0 < bs" and "embeddingsCache st = None"
    and "initializeEmbeddings_batched bs env st = Some (Inl e, st')"
  shows "embeddingsCache st' = None"
proof -
  let ?chunks = "all_chunks (loadDataFiles env)"
  obtain r st1 where eb: "embed_batches env bs ?chunks st (0 * bs) [] = Some (r, st1)"
    using embed_batches_total [OF assms(1), of env ?chunks st 0 "[]"] by auto
  from assms(2,3) eb have "st' = st1"
    by (cases r) (auto simp add: initializeEmbeddings_batched_def chunk_files_eq Let_def)
  with embed_batches_cache [OF assms(1) eb] assms(2) show ?thesis by simp
qed

lemma file_chunks_short:
  assumes "c \<noteq> []" and "length c \<le> 600"
  shows "file_chunks \<lparr>filename = n, file_content = c\<rparr> = [\<lparr>chunk_text = c, chunk_source = n\<rparr>]"
proof -
  have "0 < length c" using assms(1) by simp
  with assms(2) have "(length c + 599) div 600 = 1" by (intro div_nat_eqI) (simp_all add: Suc_le_eq)
  then have "window_count (length c) 600 = 1" by (simp add: window_count_def)
  then show ?thesis using assms(2) by (simp add: file_chunks_def window_at_def)
qed

text \<open>
  C7. For every corpus and every batch size greater than 0, whether or not it divides
  the number \<open>N\<close> of chunks, when initialization succeeds the cache it stores has \<open>N\<close>
  entries and entry \<open>i\<close> pairs the text and source of the \<open>i\<close>-th chunk, in document
  order, with the \<open>i\<close>-th vector of the concatenated batch responses (and with
  \<open>undefined\<close> when the endpoint returned fewer than \<open>i + 1\<close> vectors). The source
  runs it with batch size 100.
\<close>

theorem embedding_order_correspondence:
  assumes "0 < bs" and "embeddingsCache st = None"
    and "initializeEmbeddings_batched bs env st = Some (Inr cache, st')"
  shows "embeddingsCache st' = Some cache
       \<and> length cache = length (all_chunks (loadDataFiles env))
       \<and> (\<forall>i < length (all_chunks (loadDataFiles env)).
            cache ! i =
              \<lparr>item_text = chunk_text (all_chunks (loadDataFiles env) ! i),
               item_embedding =
                 js_index (vectors_returned env (api_calls st) bs
                             (all_chunks (loadDataFiles env))) i,
               item_source = chunk_source (all_chunks (loadDataFiles env) ! i)\<rparr>)
       \<and> initializeEmbeddings env st = initializeEmbeddings_batched 100 env st"
proof -
  note s = initializeEmbeddings_batched_success [OF assms]
  have "length cache = length (all_chunks (loadDataFiles env))"
    unfolding s(1) by (rule length_combine)
  moreover have "\<forall>i < length (all_chunks (loadDataFiles env)).
            cache ! i =
              \<lparr>item_text = chunk_text (all_chunks (loadDataFiles env) ! i),
               item_embedding =
                 js_index (vectors_returned env (api_calls st) bs
                             (all_chunks (loadDataFiles env))) i,
               item_source = chunk_source (all_chunks (loadDataFiles env) ! i)\<rparr>"
    unfolding s(1) by (simp add: combine_nth)
  moreover have "initializeEmbeddings env st = initializeEmbeddings_batched 100 env st"
    by (simp add: initializeEmbeddings_def batchSize_def)
  ultimately show ?thesis using s(2) by blast
qed

lemma all_chunks_files3:
  "all_chunks (loadDataFiles env3) =
     [\<lparr>chunk_text = ''alpha'', chunk_source = ''a.txt''\<rparr>,
      \<lparr>chunk_text = ''beta'', chunk_source = ''b.txt''\<rparr>,
      \<lparr>chunk_text = ''gamma'', chunk_source = ''c.txt''\<rparr>]"
  by (simp add: all_chunks_def loadDataFiles_def env3_def files3_def file_chunks_short)

lemma vectors_env3:
  "vectors_returned env3 0 2 (all_chunks (loadDataFiles env3)) = [[5, 0], [4, 0], [5, 1]]"
proof -
  have c: "batch_count 2 (all_chunks (loadDataFiles env3)) = 2"
    by (simp add: all_chunks_files3 batch_count_def window_count_def)
  have u: "[0..<2] = [0, Suc 0]" by (simp add: upt_rec)
  show ?thesis
    unfolding vectors_returned_def c u
    unfolding response_def batch_texts_def all_chunks_files3
    by (simp add: env3_def)
qed

lemma combine3:
  "combine [\<lparr>chunk_text = ''alpha'', chunk_source = ''a.txt''\<rparr>,
            \<lparr>chunk_text = ''beta'', chunk_source = ''b.txt''\<rparr>,
            \<lparr>chunk_text = ''gamma'', chunk_source = ''c.txt''\<rparr>] [[a, b], [c, d], [e, f]] =
     [\<lparr>item_text = ''alpha'', item_embedding = Some [a, b], item_source = ''a.txt''\<rparr>,
      \<lparr>item_text = ''beta'', item_embedding = Some [c, d], item_source = ''b.txt''\<rparr>,
      \<lparr>item_text = ''gamma'', item_embedding = Some [e, f], item_source = ''c.txt''\<rparr>]"
  by (simp add: combine_def js_index_def upt_rec)

theorem embedding_order_correspondence_witness:
  "(0::nat) < 2 \<and> embeddingsCache st0 = None
   \<and> initializeEmbeddings_batched 2 env3 st0 =
       Some (Inr cache3, \<lparr>openaiClient = True, embeddingsCache = Some cache3, api_calls = 2\<rparr>)
   \<and> cache3 ! 2 = \<lparr>item_text = ''gamma'', item_embedding = Some [5, 1],
                     item_source = ''c.txt''\<rparr>"
proof -
  have h1: "(0::nat) < 2" by simp
  have h2: "embeddingsCache st0 = None" by (simp add: st0_def)
  have ok: "openaiClient st0 \<or> api_key_set env3" by (simp add: env3_def)
  have all: "\<forall>j < batch_count 2 (all_chunks (loadDataFiles env3)). \<exists>vs.
           embeddings_create env3 (api_calls st0 + j)
             (batch_texts 2 (all_chunks (loadDataFiles env3)) j) = Inr vs"
    by (simp add: env3_def)
  have a0: "api_calls st0 = 0" by (simp add: st0_def)
  have c: "batch_count 2 (all_chunks (loadDataFiles env3)) = 2"
    by (simp add: all_chunks_files3 batch_count_def window_count_def)
  have h3: "initializeEmbeddings_batched 2 env3 st0 =
       Some (Inr cache3, \<lparr>openaiClient = True, embeddingsCache = Some cache3, api_calls = 2\<rparr>)"
    unfolding initializeEmbeddings_batched_all_ok [OF h1 h2 ok all] a0 vectors_env3 c
    unfolding all_chunks_files3 combine3
    by (simp add: cache3_def st0_def)
  from embedding_order_correspondence [OF h1 h2 h3]
  have "\<forall>i < length (all_chunks (loadDataFiles env3)).
            cache3 ! i =
              \<lparr>item_text = chunk_text (all_chunks (loadDataFiles env3) ! i),
               item_embedding =
                 js_index (vectors_returned env3 (api_calls st0) 2
                             (all_chunks (loadDataFiles env3))) i,
               item_source = chunk_source (all_chunks (loadDataFiles env3) ! i)\<rparr>"
    by blast
  moreover have "2 < length (all_chunks (loadDataFiles env3))"
    by (simp add: all_chunks_files3)
  ultimately have "cache3 ! 2 =
              \<lparr>item_text = chunk_text (all_chunks (loadDataFiles env3) ! 2),
               item_embedding =
                 js_index (vectors_returned env3 (api_calls st0) 2
                             (all_chunks (loadDataFiles env3))) 2,
               item_source = chunk_source (all_chunks (loadDataFiles env3) ! 2)\<rparr>"
    by blast
  then have "cache3 ! 2 = \<lparr>item_text = ''gamma'', item_embedding = Some [5, 1],
                        item_source = ''c.txt''\<rparr>"
    unfolding a0 vectors_env3 unfolding all_chunks_files3 by (simp add: js_index_def)
  with h1 h2 h3 show ?thesis by blast
qed

text \<open>
  C8. With the cache populated, \<open>initializeEmbeddings\<close> returns at once the cached
  collection and leaves the state, request counter included, as it is. So after a call
  that succeeded, a second call, whatever the files and the endpoint are by then,
  returns the same collection, sends no request and keeps the one cached collection.
\<close>

theorem initializeEmbeddings_idempotent:
  "(embeddingsCache st = Some cache \<longrightarrow> initializeEmbeddings env st = Some (Inr cache, st))
   \<and> (initializeEmbeddings env st = Some (Inr cache, st1) \<longrightarrow>
        embeddingsCache st1 = Some cache
        \<and> initializeEmbeddings env2 st1 = Some (Inr cache, st1))"
proof (intro conjI impI)
  assume "embeddingsCache st = Some cache"
  then show "initializeEmbeddings env st = Some (Inr cache, st)"
    by (simp add: initializeEmbeddings_def initializeEmbeddings_batched_def)
next
  assume run: "initializeEmbeddings env st = Some (Inr cache, st1)"
  show populated: "embeddingsCache st1 = Some cache"
  proof (cases "embeddingsCache st")
    case (Some c)
    with run show ?thesis
      by (simp add: initializeEmbeddings_def initializeEmbeddings_batched_def)
  next
    case None
    have "0 < batchSize" by (simp add: batchSize_def)
    from initializeEmbeddings_batched_success(2) [OF this None run [unfolded initializeEmbeddings_def]]
    show ?thesis .
  qed
  then show "initializeEmbeddings env2 st1 = Some (Inr cache, st1)"
    by (simp add: initializeEmbeddings_def initializeEmbeddings_batched_def)
qed

lemma initializeEmbeddings_env3:
  "initializeEmbeddings env3 st0 =
     Some (Inr cache1, \<lparr>openaiClient = True, embeddingsCache = Some cache1, api_calls = 1\<rparr>)"
proof -
  have h1: "0 < batchSize" by (simp add: batchSize_def)
  have h2: "embeddingsCache st0 = None" by (simp add: st0_def)
  have ok: "openaiClient st0 \<or> api_key_set env3" by (simp add: env3_def)
  have all: "\<forall>j < batch_count batchSize (all_chunks (loadDataFiles env3)). \<exists>vs.
           embeddings_create env3 (api_calls st0 + j)
             (batch_texts batchSize (all_chunks (loadDataFiles env3)) j) = Inr vs"
    by (simp add: env3_def)
  have a0: "api_calls st0 = 0" by (simp add: st0_def)
  have c: "batch_count batchSize (all_chunks (loadDataFiles env3)) = 1"
    by (simp add: all_chunks_files3 batch_count_def window_count_def batchSize_def)
  have v: "vectors_returned env3 0 batchSize (all_chunks (loadDataFiles env3)) =
           [[5, 0], [4, 0], [5, 0]]"
    unfolding vectors_returned_def c
    unfolding response_def batch_texts_def all_chunks_files3
    by (simp add: env3_def batchSize_def)
  show ?thesis
    unfolding initializeEmbeddings_def
    unfolding initializeEmbeddings_batched_all_ok [OF h1 h2 ok all] a0 v c
    unfolding all_chunks_files3 combine3
    by (simp add: cache1_def st0_def)
qed

theorem initializeEmbeddings_idempotent_witness:
  "initializeEmbeddings env3 st0 =
     Some (Inr cache1, \<lparr>openaiClient = True, embeddingsCache = Some cache1, api_calls = 1\<rparr>)
   \<and> initializeEmbeddings env3
        \<lparr>openaiClient = True, embeddingsCache = Some cache1, api_calls = 1\<rparr> =
     Some (Inr cache1, \<lparr>openaiClient = True, embeddingsCache = Some cache1, api_calls = 1\<rparr>)"
proof -
  let ?s1 = "\<lparr>openaiClient = True, embeddingsCache = Some cache1, api_calls = 1\<rparr>"
  have "initializeEmbeddings env3 st0 = Some (Inr cache1, ?s1) \<longrightarrow>
        embeddingsCache ?s1 = Some cache1
        \<and> initializeEmbeddings env3 ?s1 = Some (Inr cache1, ?s1)"
    using initializeEmbeddings_idempotent [of st0 cache1 env3 "?s1" env3] by (rule conjunct2)
  with initializeEmbeddings_env3 show ?thesis by blast
qed


text \<open>
  C9. Starting with an empty cache: when the requests for the batches before batch
  \<open>k\<close> succeed and the request for batch \<open>k\<close> fails with \<open>e\<close>, \<open>initializeEmbeddings\<close>
  fails with \<open>e\<close>; with neither client nor API key, it fails on the first batch.
  Whenever it fails, the cache is still empty afterwards, and a later call whose
  requests all succeed starts again from the first batch and caches all the chunks with
  the vectors of its own requests.
\<close>

theorem initialization_failure_no_partial_cache:
  assumes "embeddingsCache st = None"
  shows "((openaiClient st \<or> api_key_set env)
          \<and> k < batch_count batchSize (all_chunks (loadDataFiles env))
          \<and> (\<forall>j < k. \<exists>vs. embeddings_create env (api_calls st + j)
                 (batch_texts batchSize (all_chunks (loadDataFiles env)) j) = Inr vs)
          \<and> embeddings_create env (api_calls st + k)
                 (batch_texts batchSize (all_chunks (loadDataFiles env)) k) = Inl e
          \<longrightarrow> initializeEmbeddings env st =
               Some (Inl e, st\<lparr>openaiClient := True, api_calls := Suc (api_calls st + k)\<rparr>))
       \<and> (\<not> openaiClient st \<and> \<not> api_key_set env \<and> all_chunks (loadDataFiles env) \<noteq> []
          \<longrightarrow> initializeEmbeddings env st = Some (Inl MissingApiKey, st))
       \<and> (initializeEmbeddings env st = Some (Inl e, st')
          \<longrightarrow> embeddingsCache st' = None
            \<and> ((openaiClient st' \<or> api_key_set env2)
                \<and> (\<forall>j < batch_count batchSize (all_chunks (loadDataFiles env2)). \<exists>vs.
                       embeddings_create env2 (api_calls st' + j)
                         (batch_texts batchSize (all_chunks (loadDataFiles env2)) j) = Inr vs)
                \<longrightarrow> initializeEmbeddings env2 st' =
                     Some (Inr (combine (all_chunks (loadDataFiles env2))
                                 (vectors_returned env2 (api_calls st') batchSize
                                    (all_chunks (loadDataFiles env2)))),
                           (if 0 < batch_count batchSize (all_chunks (loadDataFiles env2))
                            then st'\<lparr>openaiClient := True,
                                     api_calls := api_calls st'
                                       + batch_count batchSize (all_chunks (loadDataFiles env2))\<rparr>
                            else st')
                           \<lparr>embeddingsCache :=
                              Some (combine (all_chunks (loadDataFiles env2))
                                     (vectors_returned env2 (api_calls st') batchSize
                                        (all_chunks (loadDataFiles env2))))\<rparr>)))"
proof -
  have bs: "0 < batchSize" by (simp add: batchSize_def)
  have 1: "initializeEmbeddings env st =
             Some (Inl e, st\<lparr>openaiClient := True, api_calls := Suc (api_calls st + k)\<rparr>)"
    if "openaiClient st \<or> api_key_set env"
      and "k < batch_count batchSize (all_chunks (loadDataFiles env))"
      and "\<forall>j < k. \<exists>vs. embeddings_create env (api_calls st + j)
                 (batch_texts batchSize (all_chunks (loadDataFiles env)) j) = Inr vs"
      and "embeddings_create env (api_calls st + k)
                 (batch_texts batchSize (all_chunks (loadDataFiles env)) k) = Inl e"
    unfolding initializeEmbeddings_def
    using bs assms that by (rule initializeEmbeddings_batched_fails)
  have 2: "initializeEmbeddings env st = Some (Inl MissingApiKey, st)"
    if "\<not> openaiClient st" and "\<not> api_key_set env" and "all_chunks (loadDataFiles env) \<noteq> []"
    unfolding initializeEmbeddings_def
    using bs assms that by (rule initializeEmbeddings_batched_no_key)
  have 3: "embeddingsCache st' = None"
    if "initializeEmbeddings env st = Some (Inl e, st')"
    using bs assms that [unfolded initializeEmbeddings_def]
    by (rule initializeEmbeddings_batched_failure_cache)
  have 4: "initializeEmbeddings env2 st' =
                     Some (Inr (combine (all_chunks (loadDataFiles env2))
                                 (vectors_returned env2 (api_calls st') batchSize
                                    (all_chunks (loadDataFiles env2)))),
                           (if 0 < batch_count batchSize (all_chunks (loadDataFiles env2))
                            then st'\<lparr>openaiClient := True,
                                     api_calls := api_calls st'
                                       + batch_count batchSize (all_chunks (loadDataFiles env2))\<rparr>
                            else st')
                           \<lparr>embeddingsCache :=
                              Some (combine (all_chunks (loadDataFiles env2))
                                     (vectors_returned env2 (api_calls st') batchSize
                                        (all_chunks (loadDataFiles env2))))\<rparr>)"
    if "initializeEmbeddings env st = Some (Inl e, st')"
      and "openaiClient st' \<or> api_key_set env2"
      and "\<forall>j < batch_count batchSize (all_chunks (loadDataFiles env2)). \<exists>vs.
                       embeddings_create env2 (api_calls st' + j)
                         (batch_texts batchSize (all_chunks (loadDataFiles env2)) j) = Inr vs"
    unfolding initializeEmbeddings_def
    using bs 3 [OF that(1)] that(2,3) by (rule initializeEmbeddings_batched_all_ok)
  from 1 2 3 4 show ?thesis by blast
qed

lemma all_chunks_flaky: "all_chunks (loadDataFiles flaky_env) = all_chunks (loadDataFiles env3)"
  by (simp add: loadDataFiles_def flaky_env_def env3_def)

lemma batch_count_flaky: "batch_count batchSize (all_chunks (loadDataFiles flaky_env)) = 1"
  by (simp add: all_chunks_flaky all_chunks_files3 batch_count_def window_count_def batchSize_def)

theorem initialization_failure_no_partial_cache_witness:
  "embeddingsCache st0 = None
   \<and> initializeEmbeddings flaky_env st0 =
       Some (Inl (ApiError 429), \<lparr>openaiClient = True, embeddingsCache = None, api_calls = 1\<rparr>)
   \<and> initializeEmbeddings flaky_env
        \<lparr>openaiClient = True, embeddingsCache = None, api_calls = 1\<rparr> =
       Some (Inr cache1, \<lparr>openaiClient = True, embeddingsCache = Some cache1, api_calls = 2\<rparr>)"
proof -
  let ?s1 = "\<lparr>openaiClient = True, embeddingsCache = None, api_calls = 1\<rparr>"
  have h: "embeddingsCache st0 = None" by (simp add: st0_def)
  have a0: "api_calls st0 = 0" by (simp add: st0_def)
  have s1: "st0\<lparr>openaiClient := True, api_calls := Suc (api_calls st0 + 0)\<rparr> = ?s1"
    by (simp add: st0_def)
  note inst = initialization_failure_no_partial_cache [OF h, of flaky_env 0 "ApiError 429" "?s1" flaky_env]
  have pre: "(openaiClient st0 \<or> api_key_set flaky_env)
          \<and> 0 < batch_count batchSize (all_chunks (loadDataFiles flaky_env))
          \<and> (\<forall>j < 0. \<exists>vs. embeddings_create flaky_env (api_calls st0 + j)
                 (batch_texts batchSize (all_chunks (loadDataFiles flaky_env)) j) = Inr vs)
          \<and> embeddings_create flaky_env (api_calls st0 + 0)
                 (batch_texts batchSize (all_chunks (loadDataFiles flaky_env)) 0) = Inl (ApiError 429)"
    by (simp add: batch_count_flaky a0) (simp add: flaky_env_def)
  from inst pre have fail: "initializeEmbeddings flaky_env st0 = Some (Inl (ApiError 429), ?s1)"
    unfolding s1 by blast
  have pre2: "(openaiClient ?s1 \<or> api_key_set flaky_env)
                \<and> (\<forall>j < batch_count batchSize (all_chunks (loadDataFiles flaky_env)). \<exists>vs.
                       embeddings_create flaky_env (api_calls ?s1 + j)
                         (batch_texts batchSize (all_chunks (loadDataFiles flaky_env)) j) = Inr vs)"
    by (simp add: flaky_env_def)
  have v: "vectors_returned flaky_env (api_calls ?s1) batchSize (all_chunks (loadDataFiles flaky_env)) =
           [[5, 0], [4, 0], [5, 0]]"
    unfolding vectors_returned_def batch_count_flaky
    unfolding response_def batch_texts_def all_chunks_flaky all_chunks_files3
    by (simp add: flaky_env_def batchSize_def)
  from inst fail pre2 have "initializeEmbeddings flaky_env ?s1 =
                     Some (Inr (combine (all_chunks (loadDataFiles flaky_env))
                                 (vectors_returned flaky_env (api_calls ?s1) batchSize
                                    (all_chunks (loadDataFiles flaky_env)))),
                           (if 0 < batch_count batchSize (all_chunks (loadDataFiles flaky_env))
                            then ?s1\<lparr>openaiClient := True,
                                     api_calls := api_calls ?s1
                                       + batch_count batchSize (all_chunks (loadDataFiles flaky_env))\<rparr>
                            else ?s1)
                           \<lparr>embeddingsCache :=
                              Some (combine (all_chunks (loadDataFiles flaky_env))
                                     (vectors_returned flaky_env (api_calls ?s1) batchSize
                                        (all_chunks (loadDataFiles flaky_env))))\<rparr>)"
    by blast
  then have retry: "initializeEmbeddings flaky_env ?s1 =
       Some (Inr cache1, \<lparr>openaiClient = True, embeddingsCache = Some cache1, api_calls = 2\<rparr>)"
    unfolding v batch_count_flaky
    unfolding all_chunks_flaky all_chunks_files3 combine3
    by (simp add: cache1_def)
  from h fail retry show ?thesis by blast
qed


section \<open>Retriever: similarity and ranking\<close>

lemma sign_faithful_exact: "sign_faithful exact_arith"
  by (simp add: sign_faithful_def exact_arith_def jsub_def)

lemma nan_zero_laws_exact: "nan_zero_laws exact_arith"
proof -
  have a: "jadd v NaN = NaN" for v by (cases v) simp_all
  have m: "jmul v NaN = NaN" for v by (cases v) simp_all
  have d: "jdiv v NaN = NaN" for v by (cases v) simp_all
  have z1: "jmul (Num 0) v = Num 0 \<or> jmul (Num 0) v = NaN" for v by (cases v) simp_all
  have z2: "jmul v (Num 0) = Num 0 \<or> jmul v (Num 0) = NaN" for v by (cases v) simp_all
  show ?thesis
    unfolding nan_zero_laws_def is_zero_def is_nan_def exact_arith_def
    using a m d z1 z2 by auto
qed

lemma laws_zero: "nan_zero_laws fp \<Longrightarrow> is_zero fp (fp_num fp 0)"
  by (simp add: nan_zero_laws_def)

lemma laws_nan: "nan_zero_laws fp \<Longrightarrow> is_nan fp (fp_nan fp)"
  by (simp add: nan_zero_laws_def)

lemma laws_add:
  assumes "nan_zero_laws fp" and "is_zero fp u \<or> is_nan fp u" and "is_zero fp v \<or> is_nan fp v"
  shows "is_zero fp (fp_add fp u v) \<or> is_nan fp (fp_add fp u v)"
  using assms unfolding nan_zero_laws_def by blast

lemma laws_add_nan:
  assumes "nan_zero_laws fp" and "is_nan fp v"
  shows "is_nan fp (fp_add fp u v)"
  using assms unfolding nan_zero_laws_def by blast

lemma laws_mul_left:
  assumes "nan_zero_laws fp" and "is_zero fp u \<or> is_nan fp u"
  shows "is_zero fp (fp_mul fp u v) \<or> is_nan fp (fp_mul fp u v)"
  using assms unfolding nan_zero_laws_def by blast

lemma laws_mul_right:
  assumes "nan_zero_laws fp" and "is_zero fp v \<or> is_nan fp v"
  shows "is_zero fp (fp_mul fp u v) \<or> is_nan fp (fp_mul fp u v)"
  using assms unfolding nan_zero_laws_def by blast

lemma laws_mul_zero:
  assumes "nan_zero_laws fp" and "is_zero fp u" and "is_zero fp v"
  shows "is_zero fp (fp_mul fp u v)"
  using assms unfolding nan_zero_laws_def by blast

lemma laws_add_zero:
  assumes "nan_zero_laws fp" and "is_zero fp u" and "is_zero fp v"
  shows "is_zero fp (fp_add fp u v)"
  using assms unfolding nan_zero_laws_def by blast

lemma laws_div:
  assumes "nan_zero_laws fp" and "is_zero fp u \<or> is_nan fp u" and "is_zero fp v \<or> is_nan fp v"
  shows "is_nan fp (fp_div fp u v)"
  using assms unfolding nan_zero_laws_def by blast

lemma laws_sqrt:
  assumes "nan_zero_laws fp" and "is_zero fp u \<or> is_nan fp u"
  shows "is_zero fp (fp_sqrt fp u) \<or> is_nan fp (fp_sqrt fp u)"
  using assms unfolding nan_zero_laws_def by blast

lemma laws_sqrt_zero:
  assumes "nan_zero_laws fp" and "is_zero fp u"
  shows "is_zero fp (fp_sqrt fp u)"
  using assms unfolding nan_zero_laws_def by blast

lemma component_zero:
  assumes "nan_zero_laws fp" and "\<forall>y \<in> set bv. y = 0"
  shows "is_zero fp (component fp bv i) \<or> is_nan fp (component fp bv i)"
proof (cases "js_index bv i")
  case None
  then show ?thesis using laws_nan [OF assms(1)] by (simp add: component_def)
next
  case (Some y)
  then have "y \<in> set bv" by (auto simp add: js_index_def split: if_splits)
  with assms(2) have "y = 0" by blast
  with Some show ?thesis using laws_zero [OF assms(1)] by (simp add: component_def)
qed

lemma cos_loop_zero_a:
  assumes "nan_zero_laws fp" and "\<forall>x \<in> set av. x = 0"
    and "is_zero fp d \<or> is_nan fp d" and "is_zero fp na"
  shows "\<exists>d' na' nb'. cos_loop fp av i (Some bv) (d, na, nb) = Inr (d', na', nb')
                 \<and> (is_zero fp d' \<or> is_nan fp d') \<and> is_zero fp na'"
  using assms(2-)
proof (induction av arbitrary: i d na nb)
  case Nil
  then show ?case by simp
next
  case (Cons x av)
  then have x: "x = 0" and rest: "\<forall>x \<in> set av. x = 0" by simp_all
  note L = assms(1)
  let ?c = "component fp bv i"
  have z: "is_zero fp (fp_num fp x)" unfolding x by (rule laws_zero [OF L])
  have "is_zero fp (fp_mul fp (fp_num fp x) ?c) \<or> is_nan fp (fp_mul fp (fp_num fp x) ?c)"
    using z by (intro laws_mul_left [OF L]) simp
  then have d1: "is_zero fp (fp_add fp d (fp_mul fp (fp_num fp x) ?c))
               \<or> is_nan fp (fp_add fp d (fp_mul fp (fp_num fp x) ?c))"
    using Cons.prems(2) by (intro laws_add [OF L])
  have "is_zero fp (fp_mul fp (fp_num fp x) (fp_num fp x))"
    using z by (intro laws_mul_zero [OF L])
  then have n1: "is_zero fp (fp_add fp na (fp_mul fp (fp_num fp x) (fp_num fp x)))"
    using Cons.prems(3) by (intro laws_add_zero [OF L])
  from Cons.IH [OF rest d1 n1, of "Suc i"] show ?case by simp
qed

lemma cos_loop_zero_b:
  assumes "nan_zero_laws fp" and "\<forall>y \<in> set bv. y = 0"
    and "is_zero fp d \<or> is_nan fp d" and "is_zero fp nb \<or> is_nan fp nb"
  shows "\<exists>d' na' nb'. cos_loop fp av i (Some bv) (d, na, nb) = Inr (d', na', nb')
                 \<and> (is_zero fp d' \<or> is_nan fp d') \<and> (is_zero fp nb' \<or> is_nan fp nb')"
  using assms(3-)
proof (induction av arbitrary: i d na nb)
  case Nil
  then show ?case by simp
next
  case (Cons x av)
  note L = assms(1)
  let ?c = "component fp bv i"
  have c: "is_zero fp ?c \<or> is_nan fp ?c" by (rule component_zero [OF L assms(2)])
  have "is_zero fp (fp_mul fp (fp_num fp x) ?c) \<or> is_nan fp (fp_mul fp (fp_num fp x) ?c)"
    using c by (intro laws_mul_right [OF L])
  then have d1: "is_zero fp (fp_add fp d (fp_mul fp (fp_num fp x) ?c))
               \<or> is_nan fp (fp_add fp d (fp_mul fp (fp_num fp x) ?c))"
    using Cons.prems(1) by (intro laws_add [OF L])
  have "is_zero fp (fp_mul fp ?c ?c) \<or> is_nan fp (fp_mul fp ?c ?c)"
    using c by (intro laws_mul_left [OF L])
  then have n1: "is_zero fp (fp_add fp nb (fp_mul fp ?c ?c))
               \<or> is_nan fp (fp_add fp nb (fp_mul fp ?c ?c))"
    using Cons.prems(2) by (intro laws_add [OF L])
  from Cons.IH [OF d1 n1, of "Suc i"] show ?case by simp
qed

lemma cosineSimilarity_zero_a:
  assumes "nan_zero_laws fp" and "\<forall>x \<in> set a. x = 0"
  shows "\<exists>s. cosineSimilarity fp (Some a) (Some b) = Inr s \<and> is_nan fp s"
proof -
  note L = assms(1)
  have z: "is_zero fp (fp_num fp 0)" by (rule laws_zero [OF L])
  from cos_loop_zero_a [OF L assms(2), of "fp_num fp 0" "fp_num fp 0" 0 b "fp_num fp 0"] z
  obtain d' na' nb' where
    l: "cos_loop fp a 0 (Some b) (fp_num fp 0, fp_num fp 0, fp_num fp 0) = Inr (d', na', nb')"
    and d: "is_zero fp d' \<or> is_nan fp d'" and na: "is_zero fp na'"
    by blast
  have "is_zero fp (fp_sqrt fp na')" using na by (rule laws_sqrt_zero [OF L])
  then have "is_zero fp (fp_mul fp (fp_sqrt fp na') (fp_sqrt fp nb'))
           \<or> is_nan fp (fp_mul fp (fp_sqrt fp na') (fp_sqrt fp nb'))"
    by (intro laws_mul_left [OF L]) simp
  with d have "is_nan fp (fp_div fp d' (fp_mul fp (fp_sqrt fp na') (fp_sqrt fp nb')))"
    by (intro laws_div [OF L])
  then show ?thesis by (simp add: cosineSimilarity_def l)
qed

lemma cosineSimilarity_zero_b:
  assumes "nan_zero_laws fp" and "\<forall>y \<in> set b. y = 0"
  shows "\<exists>s. cosineSimilarity fp (Some a) (Some b) = Inr s \<and> is_nan fp s"
proof -
  note L = assms(1)
  have z: "is_zero fp (fp_num fp 0)" by (rule laws_zero [OF L])
  from cos_loop_zero_b [OF L assms(2), of "fp_num fp 0" "fp_num fp 0" a 0 "fp_num fp 0"] z
  obtain d' na' nb' where
    l: "cos_loop fp a 0 (Some b) (fp_num fp 0, fp_num fp 0, fp_num fp 0) = Inr (d', na', nb')"
    and d: "is_zero fp d' \<or> is_nan fp d'" and nb: "is_zero fp nb' \<or> is_nan fp nb'"
    by blast
  have "is_zero fp (fp_sqrt fp nb') \<or> is_nan fp (fp_sqrt fp nb')"
    using nb by (rule laws_sqrt [OF L])
  then have "is_zero fp (fp_mul fp (fp_sqrt fp na') (fp_sqrt fp nb'))
           \<or> is_nan fp (fp_mul fp (fp_sqrt fp na') (fp_sqrt fp nb'))"
    by (intro laws_mul_right [OF L])
  with d have "is_nan fp (fp_div fp d' (fp_mul fp (fp_sqrt fp na') (fp_sqrt fp nb')))"
    by (intro laws_div [OF L])
  then show ?thesis by (simp add: cosineSimilarity_def l)
qed

lemma sum_squares_nonneg: "0 \<le> (\<Sum>x\<leftarrow>v. x * x)" for v :: "real list"
  by (induction v) simp_all

lemma magnitude_zero_iff: "(magnitude v = 0) = (\<forall>x \<in> set v. x = 0)"
proof -
  have "((\<Sum>x\<leftarrow>v. x * x) = 0) = (\<forall>x \<in> set v. x = 0)"
  proof (induction v)
    case Nil
    show ?case by simp
  next
    case (Cons a v)
    have "0 \<le> a * a" by simp
    with sum_squares_nonneg [of v] have "(a * a + (\<Sum>x\<leftarrow>v. x * x) = 0) = (a * a = 0 \<and> (\<Sum>x\<leftarrow>v. x * x) = 0)"
      by (simp add: add_nonneg_eq_0_iff)
    with Cons.IH show ?case by simp
  qed
  then show ?thesis by (simp add: magnitude_def)
qed

lemma cosineSimilarity_zero_magnitude:
  assumes "nan_zero_laws fp" and "magnitude a = 0 \<or> magnitude b = 0"
  shows "\<exists>s. cosineSimilarity fp (Some a) (Some b) = Inr s \<and> fp_val fp s = NaN"
proof -
  from assms(2) have "(\<forall>x \<in> set a. x = 0) \<or> (\<forall>y \<in> set b. y = 0)"
    by (simp add: magnitude_zero_iff)
  then have "\<exists>s. cosineSimilarity fp (Some a) (Some b) = Inr s \<and> is_nan fp s"
    using cosineSimilarity_zero_a [OF assms(1)] cosineSimilarity_zero_b [OF assms(1)] by blast
  then show ?thesis by (simp add: is_nan_def)
qed

lemma cos_loop_formula:
  assumes "i + length av \<le> length bv"
  shows "cos_loop exact_arith av i (Some bv) (Num d, Num na, Num nb) =
         Inr (Num (d + dot av (drop i bv)),
              Num (na + (\<Sum>x\<leftarrow>av. x * x)),
              Num (nb + (\<Sum>y\<leftarrow>take (length av) (drop i bv). y * y)))"
  using assms
proof (induction av arbitrary: i d na nb)
  case Nil
  show ?case by (simp add: dot_def)
next
  case (Cons x av)
  then have i: "i < length bv" and rest: "Suc i + length av \<le> length bv" by simp_all
  from i have c: "component exact_arith bv i = Num (bv ! i)"
    by (simp add: component_def js_index_def exact_arith_def)
  from i have dr: "drop i bv = bv ! i # drop (Suc i) bv" by (simp add: Cons_nth_drop_Suc)
  have step: "cos_loop exact_arith (x # av) i (Some bv) (Num d, Num na, Num nb) =
              cos_loop exact_arith av (Suc i) (Some bv)
                (Num (d + x * bv ! i), Num (na + x * x), Num (nb + bv ! i * bv ! i))"
    by (simp add: c) (simp add: exact_arith_def)
  show ?case
    unfolding step dr by (simp add: Cons.IH [OF rest] dot_def algebra_simps)
qed

lemma cosineSimilarity_formula:
  assumes "length a = length b"
  shows "cosineSimilarity exact_arith (Some a) (Some b) =
         Inr (jdiv (Num (dot a b)) (Num (magnitude a * magnitude b)))"
proof -
  have "cos_loop exact_arith a 0 (Some b) (Num 0, Num 0, Num 0) =
        Inr (Num (dot a b), Num (\<Sum>x\<leftarrow>a. x * x), Num (\<Sum>y\<leftarrow>b. y * y))"
    using cos_loop_formula [of 0 a b 0 0 0] assms by simp
  moreover have "jsqrt (Num (\<Sum>x\<leftarrow>a. x * x)) = Num (magnitude a)"
    using sum_squares_nonneg [of a] by (simp add: magnitude_def)
  moreover have "jsqrt (Num (\<Sum>y\<leftarrow>b. y * y)) = Num (magnitude b)"
    using sum_squares_nonneg [of b] by (simp add: magnitude_def)
  moreover have "fp_num exact_arith 0 = Num 0" "fp_div exact_arith = jdiv"
    "fp_mul exact_arith = jmul" "fp_sqrt exact_arith = jsqrt"
    by (simp_all add: exact_arith_def)
  ultimately show ?thesis by (simp add: cosineSimilarity_def)
qed

lemma dot_zero_left: "\<forall>x \<in> set a. x = 0 \<Longrightarrow> dot a b = 0"
proof (induction a arbitrary: b)
  case Nil
  show ?case by (simp add: dot_def)
next
  case (Cons x a)
  then show ?case by (cases b) (simp_all add: dot_def)
qed

lemma dot_zero_right: "\<forall>y \<in> set b. y = 0 \<Longrightarrow> dot a b = 0"
proof (induction a arbitrary: b)
  case Nil
  show ?case by (simp add: dot_def)
next
  case (Cons x a)
  then show ?case by (cases b) (simp_all add: dot_def)
qed

text \<open>
  C6 (as amended). \<open>cosineSimilarity\<close> has no guard: whenever one of the two vectors has
  zero magnitude it returns \<open>NaN\<close>, in every engine in which \<open>NaN\<close> propagates and
  \<open>0 / 0\<close> is \<open>NaN\<close>. No fallback value is substituted, and the retriever's \<open>map\<close> passes
  the stored vector on unchecked, so the \<open>NaN\<close> becomes the similarity of the scored
  entry. In exact arithmetic the result for vectors of equal length is the quotient
  \<open>0 / 0\<close> of the dot product and the product of the magnitudes.
\<close>

theorem cosineSimilarity_zero_magnitude_is_NaN:
  assumes "magnitude a = 0 \<or> magnitude b = 0"
  shows "(nan_zero_laws fp \<longrightarrow>
            (\<exists>s. cosineSimilarity fp (Some a) (Some b) = Inr s \<and> fp_val fp s = NaN
                 \<and> (item_embedding item = Some b \<longrightarrow>
                      similarities fp (Some a) [item] i =
                        Inr [\<lparr>index = i, similarity = s, scored_text = item_text item,
                              scored_source = item_source item\<rparr>])))
       \<and> cosineSimilarity exact_arith (Some a) (Some b) = Inr NaN
       \<and> (length a = length b \<longrightarrow>
            cosineSimilarity exact_arith (Some a) (Some b) =
              Inr (jdiv (Num (dot a b)) (Num (magnitude a * magnitude b)))
            \<and> dot a b = 0 \<and> magnitude a * magnitude b = 0)
       \<and> (item_embedding item = Some b \<longrightarrow>
            similarities exact_arith (Some a) [item] i =
              Inr [\<lparr>index = i, similarity = NaN, scored_text = item_text item,
                    scored_source = item_source item\<rparr>])"
proof -
  have generic: "\<exists>s. cosineSimilarity fp (Some a) (Some b) = Inr s \<and> fp_val fp s = NaN
                 \<and> (item_embedding item = Some b \<longrightarrow>
                      similarities fp (Some a) [item] i =
                        Inr [\<lparr>index = i, similarity = s, scored_text = item_text item,
                              scored_source = item_source item\<rparr>])"
    if L: "nan_zero_laws fp"
  proof -
    from cosineSimilarity_zero_magnitude [OF L assms] obtain s where
      s: "cosineSimilarity fp (Some a) (Some b) = Inr s" "fp_val fp s = NaN" by blast
    have "similarities fp (Some a) [item] i =
            Inr [\<lparr>index = i, similarity = s, scored_text = item_text item,
                  scored_source = item_source item\<rparr>]"
      if "item_embedding item = Some b"
      using that s(1) by simp
    with s show ?thesis by blast
  qed
  from assms have z: "(\<forall>x \<in> set a. x = 0) \<or> (\<forall>y \<in> set b. y = 0)"
    by (simp add: magnitude_zero_iff)
  from cosineSimilarity_zero_magnitude [OF nan_zero_laws_exact assms]
  have nan: "cosineSimilarity exact_arith (Some a) (Some b) = Inr NaN"
    by (auto simp add: exact_arith_def)
  from z have d: "dot a b = 0" using dot_zero_left dot_zero_right by blast
  from assms have m: "magnitude a * magnitude b = 0" by auto
  have "similarities exact_arith (Some a) [item] i =
          Inr [\<lparr>index = i, similarity = NaN, scored_text = item_text item,
                scored_source = item_source item\<rparr>]"
    if "item_embedding item = Some b"
    using that nan by simp
  with generic nan d m cosineSimilarity_formula [of a b] show ?thesis by blast
qed

theorem cosineSimilarity_zero_magnitude_is_NaN_witness:
  "(magnitude [0, 0] = 0 \<or> magnitude [3, 4] = 0)
   \<and> nan_zero_laws exact_arith
   \<and> cosineSimilarity exact_arith (Some [0, 0]) (Some [3, 4]) = Inr NaN"
proof -
  have h: "magnitude [0, 0] = 0 \<or> magnitude [3, 4] = 0" by (simp add: magnitude_def)
  from cosineSimilarity_zero_magnitude_is_NaN [OF h] h nan_zero_laws_exact
  show ?thesis by blast
qed

text \<open>
  C6 as stated fails: for a stored vector of zero magnitude the function returns the
  result \<open>NaN\<close> of the division \<open>0 / 0\<close>, not a fallback such as 0. Every operation of
  this instance is exact in IEEE 754 doubles as well.
\<close>

theorem cosineSimilarity_fallback_counterexample:
  "magnitude [0, 0, 0] = 0
   \<and> cosineSimilarity exact_arith (Some [1, 2, 2]) (Some [0, 0, 0]) = Inr (jdiv (Num 0) (Num 0))
   \<and> jdiv (Num 0) (Num 0) = NaN
   \<and> cosineSimilarity exact_arith (Some [1, 2, 2]) (Some [0, 0, 0]) \<noteq> Inr (Num 0)"
  by (simp add: magnitude_def cosineSimilarity_def component_def js_index_def exact_arith_def)

lemma js_slice_take: "0 \<le> k \<Longrightarrow> js_slice xs 0 k = take (nat k) xs"
  by (cases "k \<le> int (length xs)") (simp_all add: js_slice_def Let_def min_def)

lemma similarities_spec:
  assumes "\<forall>item \<in> set store. \<exists>s r.
             cosineSimilarity fp q (item_embedding item) = Inr s \<and> fp_val fp s = Num r"
  shows "\<exists>sims. similarities fp q store i = Inr sims
              \<and> length sims = length store
              \<and> (\<forall>k < length store.
                    index (sims ! k) = i + k
                    \<and> cosineSimilarity fp q (item_embedding (store ! k)) =
                        Inr (similarity (sims ! k))
                    \<and> scored_text (sims ! k) = item_text (store ! k)
                    \<and> scored_source (sims ! k) = item_source (store ! k))"
  using assms
proof (induction store arbitrary: i)
  case Nil
  show ?case by simp
next
  case (Cons item items)
  from Cons.prems obtain s where s: "cosineSimilarity fp q (item_embedding item) = Inr s"
    by auto
  from Cons.prems have "\<forall>item \<in> set items. \<exists>s r.
      cosineSimilarity fp q (item_embedding item) = Inr s \<and> fp_val fp s = Num r"
    by simp
  from Cons.IH [OF this, of "Suc i"] obtain rest where
    rest: "similarities fp q items (Suc i) = Inr rest" "length rest = length items"
      "\<forall>k < length items.
          index (rest ! k) = Suc i + k
          \<and> cosineSimilarity fp q (item_embedding (items ! k)) = Inr (similarity (rest ! k))
          \<and> scored_text (rest ! k) = item_text (items ! k)
          \<and> scored_source (rest ! k) = item_source (items ! k)"
    by blast
  let ?s = "\<lparr>index = i, similarity = s, scored_text = item_text item,
             scored_source = item_source item\<rparr>"
  have eq: "similarities fp q (item # items) i = Inr (?s # rest)"
    by (simp add: s rest(1))
  have "\<forall>k < length (item # items).
          index ((?s # rest) ! k) = i + k
          \<and> cosineSimilarity fp q (item_embedding ((item # items) ! k)) =
              Inr (similarity ((?s # rest) ! k))
          \<and> scored_text ((?s # rest) ! k) = item_text ((item # items) ! k)
          \<and> scored_source ((?s # rest) ! k) = item_source ((item # items) ! k)"
  proof (intro allI impI)
    fix k assume k: "k < length (item # items)"
    show "index ((?s # rest) ! k) = i + k
          \<and> cosineSimilarity fp q (item_embedding ((item # items) ! k)) =
              Inr (similarity ((?s # rest) ! k))
          \<and> scored_text ((?s # rest) ! k) = item_text ((item # items) ! k)
          \<and> scored_source ((?s # rest) ! k) = item_source ((item # items) ! k)"
    proof (cases k)
      case 0
      then show ?thesis by (simp add: s)
    next
      case (Suc k')
      with k have "k' < length items" by simp
      with rest(3) Suc show ?thesis by simp
    qed
  qed
  with eq rest(2) show ?case by simp
qed

lemma sort_compare_Num:
  assumes "sign_faithful fp"
    and "fp_val fp (similarity x) = Num a" and "fp_val fp (similarity y) = Num b"
  shows "sort_compare fp x y = (if a < b then 1 else if b < a then - 1 else 0)"
proof -
  from assms have "is_positive (fp_val fp (fp_sub fp (similarity y) (similarity x))) = (a < b)"
    and "is_negative (fp_val fp (fp_sub fp (similarity y) (similarity x))) = (b < a)"
    unfolding sign_faithful_def by blast+
  then show ?thesis by (simp add: sort_compare_def compare_similarity_def)
qed

lemma comes_after_Num:
  assumes "sign_faithful fp"
    and "fp_val fp (similarity x) = Num a" and "fp_val fp (similarity y) = Num b"
  shows "comes_after fp x y = (a < b)"
  by (simp add: comes_after_def sort_compare_Num [OF assms])

lemma ranks_before_Num:
  assumes "fp_val fp (similarity x) = Num a" and "fp_val fp (similarity y) = Num b"
  shows "ranks_before fp x y = (b < a \<or> (a = b \<and> index x < index y))"
  using assms by (simp add: ranks_before_def)

lemma consistent3_Num:
  assumes "sign_faithful fp"
    and "fp_val fp (similarity x) = Num a" and "fp_val fp (similarity y) = Num b"
    and "fp_val fp (similarity z) = Num c"
  shows "consistent3 fp x y z"
  unfolding consistent3_def
    sort_compare_Num [OF assms(1) assms(2) assms(2)]
    sort_compare_Num [OF assms(1) assms(2) assms(3)]
    sort_compare_Num [OF assms(1) assms(3) assms(2)]
    sort_compare_Num [OF assms(1) assms(3) assms(4)]
    sort_compare_Num [OF assms(1) assms(2) assms(4)]
  by auto

lemma consistent_on_Num:
  assumes "sign_faithful fp" and "\<forall>z \<in> set xs. \<exists>r. fp_val fp (similarity z) = Num r"
  shows "consistent_on fp xs"
proof -
  have "consistent3 fp a b c" if "a \<in> set xs" and "b \<in> set xs" and "c \<in> set xs" for a b c
  proof -
    from that assms(2) obtain ra rb rc where "fp_val fp (similarity a) = Num ra"
      and "fp_val fp (similarity b) = Num rb" and "fp_val fp (similarity c) = Num rc"
      by blast
    then show ?thesis by (rule consistent3_Num [OF assms(1)])
  qed
  then show ?thesis by (simp add: consistent_on_def list_all_iff)
qed

lemma set_js_insert: "set (js_insert fp x ys) = insert x (set ys)"
  by (induction ys) auto

lemma mset_js_insert: "mset (js_insert fp x ys) = add_mset x (mset ys)"
  by (induction ys) auto

lemma mset_insertion_sort: "mset (insertion_sort fp xs) = mset xs"
  by (induction xs) (simp_all add: insertion_sort_def mset_js_insert)

lemma js_insert_sorted:
  assumes "sign_faithful fp"
    and "\<forall>z \<in> insert x (set ys). \<exists>r. fp_val fp (similarity z) = Num r"
    and "\<forall>y \<in> set ys. index x < index y"
    and "sorted_wrt (ranks_before fp) ys"
  shows "sorted_wrt (ranks_before fp) (js_insert fp x ys)"
  using assms(2-)
proof (induction ys)
  case Nil
  show ?case by simp
next
  case (Cons y ys)
  note S = assms(1)
  from Cons.prems(1) obtain a b where a: "fp_val fp (similarity x) = Num a"
    and b: "fp_val fp (similarity y) = Num b"
    by auto
  show ?case
  proof (cases "comes_after fp x y")
    case True
    then have ab: "a < b" using a b by (simp add: comes_after_Num [OF S])
    then have yx: "ranks_before fp y x" using a b by (simp add: ranks_before_Num)
    have "sorted_wrt (ranks_before fp) (js_insert fp x ys)"
      using Cons.IH Cons.prems by simp
    moreover have "\<forall>z \<in> set (js_insert fp x ys). ranks_before fp y z"
      using yx Cons.prems(3) by (simp add: set_js_insert)
    ultimately show ?thesis using True by simp
  next
    case False
    then have ba: "b \<le> a" using a b by (simp add: comes_after_Num [OF S])
    have "ranks_before fp x z" if "z \<in> set (y # ys)" for z
    proof -
      from that Cons.prems(1) obtain c where c: "fp_val fp (similarity z) = Num c" by auto
      from that Cons.prems(2) have ix: "index x < index z" by blast
      have "c \<le> b"
      proof (cases "z = y")
        case True
        then show ?thesis using b c by simp
      next
        case False
        with that Cons.prems(3) have "ranks_before fp y z" by simp
        then show ?thesis using b c by (auto simp add: ranks_before_Num)
      qed
      with ba ix show ?thesis using a c by (auto simp add: ranks_before_Num)
    qed
    then show ?thesis using False Cons.prems(3) by simp
  qed
qed

lemma insertion_sort_sorted:
  assumes "sign_faithful fp"
    and "\<forall>z \<in> set xs. \<exists>r. fp_val fp (similarity z) = Num r"
    and "sorted_wrt (\<lambda>a b. index a < index b) xs"
  shows "sorted_wrt (ranks_before fp) (insertion_sort fp xs)"
  using assms(2-)
proof (induction xs)
  case Nil
  show ?case by (simp add: insertion_sort_def)
next
  case (Cons x xs)
  have s: "insertion_sort fp (x # xs) = js_insert fp x (insertion_sort fp xs)"
    by (simp add: insertion_sort_def)
  have set_eq: "set (insertion_sort fp xs) = set xs"
    using mset_insertion_sort [of fp xs] by (metis set_mset_mset)
  have "sorted_wrt (ranks_before fp) (insertion_sort fp xs)" using Cons by simp
  moreover have "\<forall>z \<in> insert x (set (insertion_sort fp xs)). \<exists>r. fp_val fp (similarity z) = Num r"
    using Cons.prems(1) by (simp add: set_eq)
  moreover have "\<forall>y \<in> set (insertion_sort fp xs). index x < index y"
    using Cons.prems(2) by (simp add: set_eq)
  ultimately show ?case unfolding s by (intro js_insert_sorted [OF assms(1)])
qed

lemma length_insertion_sort: "length (insertion_sort fp xs) = length xs"
  using mset_insertion_sort [of fp xs] by (metis size_mset)

text \<open>
  C4 (as amended). In every engine whose subtraction of finite numbers has the sign of
  the exact difference: when the query is embedded, the store is available, every
  computed similarity is a finite number and \<open>topK\<close> is not negative, the scored
  entries carry the position, text and source of the stored items and the similarity
  the engine computed; the sort returns a permutation of them, ordered by descending
  computed similarity, entries of equal similarity in store order; the first
  \<open>min topK (store size)\<close> of it are selected, each formatted with its source in front,
  and joined with the fixed separator. With \<open>topK = 3\<close> and a store of at least 3 items
  exactly 3 passages are selected.
\<close>

theorem retrieveContext_top_k:
  assumes "sign_faithful fp"
    and "generateEmbeddings env st [query] = (Inr qs, st1)"
    and "getEmbeddings env st1 = Some (Inr (Some store), st2)"
    and "\<forall>item \<in> set store. \<exists>s r.
           cosineSimilarity fp (js_index qs 0) (item_embedding item) = Inr s
           \<and> fp_val fp s = Num r"
    and "0 \<le> topK"
  shows "\<exists>sims ranked. similarities fp (js_index qs 0) store 0 = Inr sims
           \<and> length sims = length store
           \<and> (\<forall>i < length store.
                 index (sims ! i) = i
                 \<and> cosineSimilarity fp (js_index qs 0) (item_embedding (store ! i)) =
                     Inr (similarity (sims ! i))
                 \<and> scored_text (sims ! i) = item_text (store ! i)
                 \<and> scored_source (sims ! i) = item_source (store ! i))
           \<and> js_sort fp sims = Some ranked
           \<and> mset ranked = mset sims
           \<and> sorted_wrt (ranks_before fp) ranked
           \<and> topResults fp sims topK = Some (take (nat topK) ranked)
           \<and> retrieveContext fp env st query topK =
               Some (js_join separator (map format_result (take (nat topK) ranked)), st2)
           \<and> length (take (nat topK) ranked) = min (nat topK) (length store)
           \<and> (topK = 3 \<and> 3 \<le> length store \<longrightarrow> length (take (nat topK) ranked) = 3)"
proof -
  from similarities_spec [OF assms(4), of 0] obtain sims where
    sims: "similarities fp (js_index qs 0) store 0 = Inr sims" "length sims = length store"
      "\<forall>k < length store.
          index (sims ! k) = 0 + k
          \<and> cosineSimilarity fp (js_index qs 0) (item_embedding (store ! k)) =
              Inr (similarity (sims ! k))
          \<and> scored_text (sims ! k) = item_text (store ! k)
          \<and> scored_source (sims ! k) = item_source (store ! k)"
    by blast
  define ranked where "ranked = insertion_sort fp sims"
  have numeric: "\<forall>z \<in> set sims. \<exists>r. fp_val fp (similarity z) = Num r"
  proof
    fix z assume "z \<in> set sims"
    then obtain k where k: "k < length sims" "z = sims ! k" by (auto simp add: in_set_conv_nth)
    with sims(2,3) have c: "cosineSimilarity fp (js_index qs 0) (item_embedding (store ! k)) =
                              Inr (similarity z)" by simp
    from k sims(2) have "store ! k \<in> set store" by simp
    with assms(4) obtain s r where
      "cosineSimilarity fp (js_index qs 0) (item_embedding (store ! k)) = Inr s"
      and "fp_val fp s = Num r" by blast
    with c have "fp_val fp (similarity z) = Num r" by simp
    then show "\<exists>r. fp_val fp (similarity z) = Num r" by blast
  qed
  have srt: "js_sort fp sims = Some ranked"
    using consistent_on_Num [OF assms(1) numeric] by (simp add: js_sort_def ranked_def)
  have perm: "mset ranked = mset sims"
    unfolding ranked_def by (rule mset_insertion_sort)
  have top: "topResults fp sims topK = Some (take (nat topK) ranked)"
    using js_slice_take [OF assms(5), of ranked] by (simp add: topResults_def srt)
  have ctx: "retrieveContext fp env st query topK =
               Some (js_join separator (map format_result (take (nat topK) ranked)), st2)"
    by (simp add: retrieveContext_def assms(2,3) sims(1) top)
  have len: "length (take (nat topK) ranked) = min (nat topK) (length store)"
    by (simp add: ranked_def length_insertion_sort sims(2) min.commute)
  have ordered: "sorted_wrt (\<lambda>a b. index a < index b) sims"
    using sims(2,3) by (simp add: sorted_wrt_iff_nth_less)
  have sorted: "sorted_wrt (ranks_before fp) ranked"
    unfolding ranked_def using assms(1) numeric ordered by (rule insertion_sort_sorted)
  have three: "topK = 3 \<and> 3 \<le> length store \<longrightarrow> length (take (nat topK) ranked) = 3"
    unfolding len by auto
  from sims(3) have spec: "\<forall>i < length store.
                 index (sims ! i) = i
                 \<and> cosineSimilarity fp (js_index qs 0) (item_embedding (store ! i)) =
                     Inr (similarity (sims ! i))
                 \<and> scored_text (sims ! i) = item_text (store ! i)
                 \<and> scored_source (sims ! i) = item_source (store ! i)"
    by simp
  from sims(1,2) spec srt perm sorted top ctx len three
  show ?thesis by blast
qed

lemma cos_store4:
  "cosineSimilarity exact_arith (Some [1, 0]) (Some [0, 1]) = Inr (Num 0)"
  "cosineSimilarity exact_arith (Some [1, 0]) (Some [1, 0]) = Inr (Num 1)"
  "cosineSimilarity exact_arith (Some [1, 0]) (Some [2, 0]) = Inr (Num 1)"
  "cosineSimilarity exact_arith (Some [1, 0]) (Some [- 1, 0]) = Inr (Num (- 1))"
  by (simp_all add: cosineSimilarity_def component_def js_index_def exact_arith_def)

lemma sort_compare_exact:
  "sort_compare exact_arith a b =
     (let v = jsub (similarity b) (similarity a)
      in if is_positive v then 1 else if is_negative v then - 1 else 0)"
  by (simp add: sort_compare_def compare_similarity_def exact_arith_def)

theorem retrieveContext_top_k_witness:
  "sign_faithful exact_arith
   \<and> (0::int) \<le> 3
   \<and> retrieveContext exact_arith query_env
        \<lparr>openaiClient = True, embeddingsCache = Some store4, api_calls = 0\<rparr> ''which way'' 3 =
       Some (''[Source: b.txt]'' @ [newline] @ ''east'' @ separator @
             ''[Source: c.txt]'' @ [newline] @ ''far east'' @ separator @
             ''[Source: a.txt]'' @ [newline] @ ''north'',
             \<lparr>openaiClient = True, embeddingsCache = Some store4, api_calls = 1\<rparr>)"
proof -
  let ?st = "\<lparr>openaiClient = True, embeddingsCache = Some store4, api_calls = 0\<rparr>"
  let ?st1 = "\<lparr>openaiClient = True, embeddingsCache = Some store4, api_calls = 1\<rparr>"
  have h1: "generateEmbeddings query_env ?st [''which way''] = (Inr [[1, 0]], ?st1)"
    by (simp add: generateEmbeddings_def getOpenAIClient_def query_env_def)
  have h2: "getEmbeddings query_env ?st1 = Some (Inr (Some store4), ?st1)"
    by (simp add: getEmbeddings_def)
  have q: "js_index [[1, 0 :: real]] 0 = Some [1, 0]" by (simp add: js_index_def)
  have v: "fp_val exact_arith = (\<lambda>v. v)" by (simp add: exact_arith_def)
  have h3: "\<forall>item \<in> set store4. \<exists>s r.
           cosineSimilarity exact_arith (js_index [[1, 0]] 0) (item_embedding item) = Inr s
           \<and> fp_val exact_arith s = Num r"
    unfolding q v by (simp add: store4_def cos_store4)
  have h4: "(0::int) \<le> 3" by simp
  have s: "similarities exact_arith (Some [1, 0]) store4 0 =
           Inr [\<lparr>index = 0, similarity = Num 0, scored_text = ''north'', scored_source = ''a.txt''\<rparr>,
                \<lparr>index = 1, similarity = Num 1, scored_text = ''east'', scored_source = ''b.txt''\<rparr>,
                \<lparr>index = 2, similarity = Num 1, scored_text = ''far east'', scored_source = ''c.txt''\<rparr>,
                \<lparr>index = 3, similarity = Num (- 1), scored_text = ''west'', scored_source = ''d.txt''\<rparr>]"
    by (simp add: store4_def cos_store4)
  from retrieveContext_top_k [OF sign_faithful_exact h1 h2 h3 h4] obtain sims ranked where
    a: "similarities exact_arith (js_index [[1, 0]] 0) store4 0 = Inr sims"
    and r: "js_sort exact_arith sims = Some ranked"
    and b: "retrieveContext exact_arith query_env ?st ''which way'' 3 =
               Some (js_join separator (map format_result (take (nat 3) ranked)), ?st1)"
    by blast
  from a have sims: "sims =
       [\<lparr>index = 0, similarity = Num 0, scored_text = ''north'', scored_source = ''a.txt''\<rparr>,
        \<lparr>index = 1, similarity = Num 1, scored_text = ''east'', scored_source = ''b.txt''\<rparr>,
        \<lparr>index = 2, similarity = Num 1, scored_text = ''far east'', scored_source = ''c.txt''\<rparr>,
        \<lparr>index = 3, similarity = Num (- 1), scored_text = ''west'', scored_source = ''d.txt''\<rparr>]"
    unfolding q s by simp
  have "insertion_sort exact_arith sims = 
       [\<lparr>index = 1, similarity = Num 1, scored_text = ''east'', scored_source = ''b.txt''\<rparr>,
        \<lparr>index = 2, similarity = Num 1, scored_text = ''far east'', scored_source = ''c.txt''\<rparr>,
        \<lparr>index = 0, similarity = Num 0, scored_text = ''north'', scored_source = ''a.txt''\<rparr>,
        \<lparr>index = 3, similarity = Num (- 1), scored_text = ''west'', scored_source = ''d.txt''\<rparr>]"
    unfolding sims
    by (simp add: insertion_sort_def comes_after_def sort_compare_exact jsub_def)
  with r have ranked: "ranked =
       [\<lparr>index = 1, similarity = Num 1, scored_text = ''east'', scored_source = ''b.txt''\<rparr>,
        \<lparr>index = 2, similarity = Num 1, scored_text = ''far east'', scored_source = ''c.txt''\<rparr>,
        \<lparr>index = 0, similarity = Num 0, scored_text = ''north'', scored_source = ''a.txt''\<rparr>,
        \<lparr>index = 3, similarity = Num (- 1), scored_text = ''west'', scored_source = ''d.txt''\<rparr>]"
    by (simp add: js_sort_def split: if_splits)
  have "js_join separator (map format_result (take (nat 3) ranked)) =
          ''[Source: b.txt]'' @ [newline] @ ''east'' @ separator @
          ''[Source: c.txt]'' @ [newline] @ ''far east'' @ separator @
          ''[Source: a.txt]'' @ [newline] @ ''north''"
    unfolding ranked by (simp add: format_result_def numeral_3_eq_3)
  with b h4 sign_faithful_exact show ?thesis by simp
qed

text \<open>
  C4 as stated fails on a store that holds a vector of zero magnitude: its similarity
  is \<open>NaN\<close>, the comparator gives \<open>NaN\<close>, read as 0, for every pair it is in, and the
  stable sort leaves it where it was. Here it is returned in front of the passage of
  similarity 1, and with \<open>topK = 1\<close> it is the only passage returned. Neither order of
  the two similarities is descending. Every operation of this instance is exact in
  IEEE 754 doubles as well, and with two entries the comparison is consistent, so the
  order is the one every engine returns.
\<close>

theorem retrieveContext_order_counterexample:
  "retrieveContext exact_arith query_env
     \<lparr>openaiClient = True, embeddingsCache = Some store_nan, api_calls = 0\<rparr> ''which way'' 3 =
     Some (''[Source: a.txt]'' @ [newline] @ ''first'' @ separator @
           ''[Source: b.txt]'' @ [newline] @ ''second'',
           \<lparr>openaiClient = True, embeddingsCache = Some store_nan, api_calls = 1\<rparr>)
   \<and> similarities exact_arith (Some [1, 0]) store_nan 0 =
       Inr [\<lparr>index = 0, similarity = NaN, scored_text = ''first'', scored_source = ''a.txt''\<rparr>,
            \<lparr>index = 1, similarity = Num 1, scored_text = ''second'', scored_source = ''b.txt''\<rparr>]
   \<and> retrieveContext exact_arith query_env
       \<lparr>openaiClient = True, embeddingsCache = Some store_nan, api_calls = 0\<rparr> ''which way'' 1 =
       Some (''[Source: a.txt]'' @ [newline] @ ''first'',
             \<lparr>openaiClient = True, embeddingsCache = Some store_nan, api_calls = 1\<rparr>)
   \<and> \<not> descending [NaN, Num 1] \<and> \<not> descending [Num 1, NaN]"
proof -
  let ?sims = "[\<lparr>index = 0, similarity = NaN, scored_text = ''first'', scored_source = ''a.txt''\<rparr>,
            \<lparr>index = 1, similarity = Num 1, scored_text = ''second'', scored_source = ''b.txt''\<rparr>]"
  have s: "similarities exact_arith (Some [1, 0]) store_nan 0 = Inr ?sims"
    by (simp add: store_nan_def cosineSimilarity_def component_def js_index_def exact_arith_def)
  have g: "generateEmbeddings query_env
             \<lparr>openaiClient = True, embeddingsCache = Some store_nan, api_calls = 0\<rparr> [''which way''] =
           (Inr [[1, 0]], \<lparr>openaiClient = True, embeddingsCache = Some store_nan, api_calls = 1\<rparr>)"
    by (simp add: generateEmbeddings_def getOpenAIClient_def query_env_def)
  have q: "js_index [[1, 0 :: real]] 0 = Some [1, 0]" by (simp add: js_index_def)
  have r: "retrieveContext exact_arith query_env
     \<lparr>openaiClient = True, embeddingsCache = Some store_nan, api_calls = 0\<rparr> ''which way'' 3 =
     Some (''[Source: a.txt]'' @ [newline] @ ''first'' @ separator @
           ''[Source: b.txt]'' @ [newline] @ ''second'',
           \<lparr>openaiClient = True, embeddingsCache = Some store_nan, api_calls = 1\<rparr>)"
    unfolding retrieveContext_def g
    by (simp add: getEmbeddings_def q s topResults_def js_slice_def format_result_def
        js_sort_def consistent_on_def consistent3_def insertion_sort_def
        comes_after_def sort_compare_exact jsub_def)
  have r1: "retrieveContext exact_arith query_env
       \<lparr>openaiClient = True, embeddingsCache = Some store_nan, api_calls = 0\<rparr> ''which way'' 1 =
       Some (''[Source: a.txt]'' @ [newline] @ ''first'',
             \<lparr>openaiClient = True, embeddingsCache = Some store_nan, api_calls = 1\<rparr>)"
    unfolding retrieveContext_def g
    by (simp add: getEmbeddings_def q s topResults_def js_slice_def format_result_def
        js_sort_def consistent_on_def consistent3_def insertion_sort_def
        comes_after_def sort_compare_exact jsub_def)
  have d: "\<not> descending [NaN, Num 1] \<and> \<not> descending [Num 1, NaN]"
    by (simp add: descending_def)
  from r s r1 d show ?thesis by blast
qed

text \<open>
  With a \<open>NaN\<close> similarity among three or more different ones the comparison is not
  consistent (\<open>NaN\<close> compares equal to 0.6 and to 1, which differ), and the order of the
  result is left to the engine's algorithm: the model gives none.
\<close>

lemma js_sort_inconsistent:
  "js_sort exact_arith
     [\<lparr>index = 0, similarity = Num 0, scored_text = ''a'', scored_source = ''a.txt''\<rparr>,
      \<lparr>index = 1, similarity = Num (3 / 5), scored_text = ''b'', scored_source = ''b.txt''\<rparr>,
      \<lparr>index = 2, similarity = NaN, scored_text = ''c'', scored_source = ''c.txt''\<rparr>,
      \<lparr>index = 3, similarity = Num 1, scored_text = ''d'', scored_source = ''d.txt''\<rparr>] = None"
  by (simp add: js_sort_def consistent_on_def consistent3_def sort_compare_exact jsub_def)

end
